theory Spec2Isabelle
  imports Main
begin

section \<open>The block deque of \<open>types/deque.go\<close>\<close>

text \<open>
  The Go type \<open>Deque\<close> keeps a doubly linked list of blocks (slices of 64 slots), two
  cursors and a length. The embedding keeps the fields of the struct as they are:
  \<^item> an \<open>interface{}\<close> value is an \<open>'a option\<close>, \<open>None\<close> being Go's \<open>nil\<close>;
  \<^item> a block (\<open>blockT\<close>) is the list of its slots, and \<open>list.List\<close> is the list of
    its blocks from \<open>Front()\<close> to \<open>Back()\<close>; every block is allocated by \<open>newBlock\<close>
    and owned by one list element, so no two blocks share storage;
  \<^item> Go's \<open>int\<close> is modelled by \<open>int\<close>: the cursors stay between \<open>-1\<close> and \<open>64\<close>, and
    \<open>len\<close> would need more than \<open>2^63 - 1\<close> stored items to wrap;
  \<^item> a run-time panic (an index out of range, a method call on the \<open>nil\<close> element
    returned by \<open>Front()\<close>, \<open>Back()\<close> or \<open>Next()\<close>) is the result \<open>None\<close>;
  \<^item> a method with a pointer receiver takes the deque and returns the updated deque.
\<close>

type_synonym 'a iface = "'a option"

type_synonym 'a blockT = "'a iface list"

record 'a Deque =
  maxLen :: int
  blocks :: "'a blockT list"
  frontIdx :: int
  backIdx :: int
  len :: int

definition blockLen :: int where
  "blockLen = 64"

definition blockCenter :: int where
  "blockCenter = (blockLen - 1) div 2"

definition newBlock :: "'a blockT" where
  "newBlock = replicate (nat blockLen) None"

definition recenter :: "'a Deque \<Rightarrow> 'a Deque" where
  "recenter d = d\<lparr>frontIdx := blockCenter + 1, backIdx := blockCenter\<rparr>"

text \<open>
  \<open>NewDequeWithMaxLen\<close>: the zero value of the struct with \<open>maxLen\<close> set, one block pushed
  onto the empty block list, then \<open>recenter\<close>.
\<close>

definition NewDequeWithMaxLen :: "int \<Rightarrow> 'a Deque" where
  "NewDequeWithMaxLen m =
     recenter \<lparr>maxLen = m, blocks = [] @ [newBlock], frontIdx = 0, backIdx = 0, len = 0\<rparr>"

definition NewDeque :: "'a Deque" where
  "NewDeque = NewDequeWithMaxLen 0"

definition Len :: "'a Deque \<Rightarrow> int" where
  "Len d = len d"

text \<open>
  \<open>PopFront\<close>. \<open>elem\<close> is the first element of the block list (\<open>nil\<close> when the list is
  empty, and then \<open>elem.Value\<close> panics); \<open>block[d.frontIdx]\<close> panics out of range;
  \<open>d.blocks.Remove(elem)\<close> drops the first block.
\<close>

definition PopFront :: "'a Deque \<Rightarrow> (('a iface \<times> bool) \<times> 'a Deque) option" where
  "PopFront d =
     (if len d < 1 then Some ((None, False), d)
      else (case blocks d of
              [] \<Rightarrow> None
            | block # rest \<Rightarrow>
                if \<not> (0 \<le> frontIdx d \<and> frontIdx d < int (length block)) then None
                else
                  let item = block ! nat (frontIdx d);
                      d1 = d\<lparr>blocks := block[nat (frontIdx d) := None] # rest,
                              frontIdx := frontIdx d + 1,
                              len := len d - 1\<rparr>
                  in if frontIdx d1 = blockLen
                     then (if len d1 = 0 then Some ((item, True), recenter d1)
                           else Some ((item, True), d1\<lparr>blocks := rest, frontIdx := 0\<rparr>))
                     else Some ((item, True), d1)))"

text \<open>
  \<open>PopBack\<close>, the mirror image: \<open>elem\<close> is the last element of the block list and
  \<open>d.blocks.Remove(elem)\<close> drops the last block.
\<close>

definition PopBack :: "'a Deque \<Rightarrow> (('a iface \<times> bool) \<times> 'a Deque) option" where
  "PopBack d =
     (if len d < 1 then Some ((None, False), d)
      else if blocks d = [] then None
      else
        let block = last (blocks d); rest = butlast (blocks d)
        in if \<not> (0 \<le> backIdx d \<and> backIdx d < int (length block)) then None
           else
             let item = block ! nat (backIdx d);
                 d1 = d\<lparr>blocks := rest @ [block[nat (backIdx d) := None]],
                         backIdx := backIdx d - 1,
                         len := len d - 1\<rparr>
             in if backIdx d1 = - 1
                then (if len d1 = 0 then Some ((item, True), recenter d1)
                      else Some ((item, True), d1\<lparr>blocks := rest, backIdx := blockLen - 1\<rparr>))
                else Some ((item, True), d1))"

text \<open>
  \<open>PushBack\<close>. The local \<open>block\<close> is the slice held by the last list element in both
  branches (the new block has just been appended in the first), so the store goes into
  the last block of the list. The value returned by the evicting \<open>PopFront\<close> is dropped.
\<close>

definition PushBack :: "'a iface \<Rightarrow> 'a Deque \<Rightarrow> 'a Deque option" where
  "PushBack item d =
     (case (if backIdx d = blockLen - 1
            then Some (d\<lparr>blocks := blocks d @ [newBlock], backIdx := - 1\<rparr>)
            else if blocks d = [] then None else Some d) of
        None \<Rightarrow> None
      | Some d1 \<Rightarrow>
          let d2 = d1\<lparr>backIdx := backIdx d1 + 1\<rparr>;
              block = last (blocks d2)
          in if \<not> (0 \<le> backIdx d2 \<and> backIdx d2 < int (length block)) then None
             else
               let d3 = d2\<lparr>blocks := butlast (blocks d2) @ [block[nat (backIdx d2) := item]],
                           len := len d2 + 1\<rparr>
               in if maxLen d3 > 0 \<and> len d3 > maxLen d3
                  then map_option snd (PopFront d3)
                  else Some d3)"

definition PushFront :: "'a iface \<Rightarrow> 'a Deque \<Rightarrow> 'a Deque option" where
  "PushFront item d =
     (case (if frontIdx d = 0
            then Some (d\<lparr>blocks := newBlock # blocks d, frontIdx := blockLen\<rparr>)
            else if blocks d = [] then None else Some d) of
        None \<Rightarrow> None
      | Some d1 \<Rightarrow>
          let d2 = d1\<lparr>frontIdx := frontIdx d1 - 1\<rparr>;
              block = hd (blocks d2)
          in if \<not> (0 \<le> frontIdx d2 \<and> frontIdx d2 < int (length block)) then None
             else
               let d3 = d2\<lparr>blocks := block[nat (frontIdx d2) := item] # tl (blocks d2),
                           len := len d2 + 1\<rparr>
               in if maxLen d3 > 0 \<and> len d3 > maxLen d3
                  then map_option snd (PopBack d3)
                  else Some d3)"

text \<open>
  \<open>Each\<close>. The callback \<open>f\<close> acts on a state of the caller's, so it is a function
  \<open>'a iface \<Rightarrow> 's \<Rightarrow> 's\<close> and \<open>Each\<close> returns the caller's state after the last call.
  In the loop, \<open>elems\<close> is the block list from \<open>elem\<close> onwards: \<open>elem.Next()\<close> is its
  tail, \<open>nil\<close> when the tail is empty.
\<close>

function Each_loop ::
  "('a iface \<Rightarrow> 's \<Rightarrow> 's) \<Rightarrow> int \<Rightarrow> int \<Rightarrow> int \<Rightarrow> 'a blockT list \<Rightarrow> 'a blockT \<Rightarrow> 's \<Rightarrow> 's option"
where
  "Each_loop f n index pos elems block s =
     (if index < n then
        (case (if pos + 1 = blockLen
               then (case tl elems of [] \<Rightarrow> None | b # r \<Rightarrow> Some (0, b # r, b))
               else Some (pos + 1, elems, block)) of
           None \<Rightarrow> None
         | Some (pos', elems', block') \<Rightarrow>
             if 0 \<le> pos' \<and> pos' < int (length block')
             then Each_loop f n (index + 1) pos' elems' block' (f (block' ! nat pos') s)
             else None)
      else Some s)"
  by pat_completeness auto
termination
  by (relation "measure (\<lambda>(f, n, index, pos, elems, block, s). nat (n - index))") auto

definition Each :: "('a iface \<Rightarrow> 's \<Rightarrow> 's) \<Rightarrow> 'a Deque \<Rightarrow> 's \<Rightarrow> 's option" where
  "Each f d s =
     (case blocks d of
        [] \<Rightarrow> None
      | block # rest \<Rightarrow> Each_loop f (len d) 0 (frontIdx d - 1) (block # rest) block s)"

section \<open>Abstraction function and invariant\<close>

text \<open>
  The items of a deque, front to back. The comment of the Go type says that the first
  item is slot \<open>frontIdx\<close> of the first block and that only the first and last block may
  be partly filled; so the items are the \<open>len\<close> slots that follow slot \<open>frontIdx\<close> in
  the concatenation of the blocks.
\<close>

definition contents :: "'a Deque \<Rightarrow> 'a iface list" where
  "contents d = take (nat (len d)) (drop (nat (frontIdx d)) (concat (blocks d)))"

text \<open>
  The invariant of the representation: at least one block, every block of \<open>blockLen\<close>
  slots, both cursors inside a block, and \<open>len\<close> the number of slots from the front
  cursor in the first block to the back cursor in the last block.
\<close>

definition deque_inv :: "'a Deque \<Rightarrow> bool" where
  "deque_inv d \<longleftrightarrow>
     blocks d \<noteq> [] \<and> (\<forall>b \<in> set (blocks d). int (length b) = blockLen) \<and>
     0 \<le> frontIdx d \<and> frontIdx d < blockLen \<and>
     0 \<le> backIdx d \<and> backIdx d < blockLen \<and>
     0 \<le> len d \<and>
     len d = (int (length (blocks d)) - 1) * blockLen + backIdx d - frontIdx d + 1"

text \<open>
  The deque in the middle of a push, after the item is stored and \<open>len\<close> is incremented
  and before the test of \<open>maxLen\<close> (lines 101 to 113 of \<open>PushBack\<close> and 122 to 134 of
  \<open>PushFront\<close>), written out for a deque with both cursors in \<open>0 .. 63\<close>. The lemmas
  \<open>PushBack_eval\<close> and \<open>PushFront_eval\<close> below relate them to the two functions.
\<close>

definition back_stored :: "'a iface \<Rightarrow> 'a Deque \<Rightarrow> 'a Deque" where
  "back_stored item d =
     (if backIdx d = 63
      then d\<lparr>backIdx := 0, blocks := blocks d @ [newBlock[0 := item]], len := len d + 1\<rparr>
      else d\<lparr>backIdx := backIdx d + 1,
              blocks := butlast (blocks d) @ [(last (blocks d))[nat (backIdx d + 1) := item]],
              len := len d + 1\<rparr>)"

definition front_stored :: "'a iface \<Rightarrow> 'a Deque \<Rightarrow> 'a Deque" where
  "front_stored item d =
     (if frontIdx d = 0
      then d\<lparr>frontIdx := 63, blocks := newBlock[63 := item] # blocks d, len := len d + 1\<rparr>
      else d\<lparr>frontIdx := frontIdx d - 1,
              blocks := (hd (blocks d))[nat (frontIdx d - 1) := item] # tl (blocks d),
              len := len d + 1\<rparr>)"

section \<open>Call sequences\<close>

text \<open>
  A client of the deque makes a sequence of calls. \<open>run\<close> makes the calls of a list one
  after the other on a deque and collects what each call returns (\<open>OutUnit\<close> for a push,
  which returns nothing); it is \<open>None\<close> as soon as one call panics.
\<close>

datatype 'a op = OpPushBack "'a iface" | OpPushFront "'a iface" | OpPopBack | OpPopFront | OpLen

datatype 'a out = OutUnit | OutPop "'a iface" bool | OutLen int

fun apply_op :: "'a op \<Rightarrow> 'a Deque \<Rightarrow> ('a out \<times> 'a Deque) option" where
  "apply_op (OpPushBack x) d = map_option (Pair OutUnit) (PushBack x d)"
| "apply_op (OpPushFront x) d = map_option (Pair OutUnit) (PushFront x d)"
| "apply_op OpPopBack d = map_option (\<lambda>((v, ok), d'). (OutPop v ok, d')) (PopBack d)"
| "apply_op OpPopFront d = map_option (\<lambda>((v, ok), d'). (OutPop v ok, d')) (PopFront d)"
| "apply_op OpLen d = Some (OutLen (Len d), d)"

fun run :: "'a op list \<Rightarrow> 'a Deque \<Rightarrow> ('a out list \<times> 'a Deque) option" where
  "run [] d = Some ([], d)"
| "run (a # as) d =
     (case apply_op a d of
        None \<Rightarrow> None
      | Some (r, d') \<Rightarrow>
          (case run as d' of None \<Rightarrow> None | Some (rs, d'') \<Rightarrow> Some (r # rs, d'')))"

section \<open>The sequence model of the specification\<close>

text \<open>
  The specification describes the deque as a sequence of items with an optional bound
  \<open>K\<close> (\<open>K \<le> 0\<close>: none): a push adds the item at its end and, when the sequence is then
  longer than \<open>K\<close>, removes one item at the other end; a pop removes and returns the item
  at its end, or returns no value on the empty sequence; \<open>len\<close> is the length.
  \<open>spec_op\<close> and \<open>spec_run\<close> follow this description and not the code.
\<close>

fun spec_op :: "int \<Rightarrow> 'a op \<Rightarrow> 'a iface list \<Rightarrow> 'a out \<times> 'a iface list" where
  "spec_op K (OpPushBack x) xs =
     (OutUnit, if 0 < K \<and> K < int (length xs) + 1 then tl (xs @ [x]) else xs @ [x])"
| "spec_op K (OpPushFront x) xs =
     (OutUnit, if 0 < K \<and> K < int (length xs) + 1 then butlast (x # xs) else x # xs)"
| "spec_op K OpPopBack xs =
     (if xs = [] then (OutPop None False, xs) else (OutPop (last xs) True, butlast xs))"
| "spec_op K OpPopFront xs =
     (if xs = [] then (OutPop None False, xs) else (OutPop (hd xs) True, tl xs))"
| "spec_op K OpLen xs = (OutLen (int (length xs)), xs)"

fun spec_run :: "int \<Rightarrow> 'a op list \<Rightarrow> 'a iface list \<Rightarrow> 'a out list \<times> 'a iface list" where
  "spec_run K [] xs = ([], xs)"
| "spec_run K (a # as) xs =
     (case spec_op K a xs of (r, ys) \<Rightarrow> (case spec_run K as ys of (rs, zs) \<Rightarrow> (r # rs, zs)))"

text \<open>
  A stack, as the specification uses the word: last in, first out. A sequence of stack
  calls is made on the back of the deque by \<open>back_op\<close> and on its front by \<open>front_op\<close>.
\<close>

datatype 'a stack_op = Push "'a iface" | Pop

fun back_op :: "'a stack_op \<Rightarrow> 'a op" where
  "back_op (Push x) = OpPushBack x"
| "back_op Pop = OpPopBack"

fun front_op :: "'a stack_op \<Rightarrow> 'a op" where
  "front_op (Push x) = OpPushFront x"
| "front_op Pop = OpPopFront"

fun stack_run :: "'a stack_op list \<Rightarrow> 'a iface list \<Rightarrow> 'a out list" where
  "stack_run [] st = []"
| "stack_run (Push x # as) st = OutUnit # stack_run as (x # st)"
| "stack_run (Pop # as) [] = OutPop None False # stack_run as []"
| "stack_run (Pop # as) (y # st) = OutPop y True # stack_run as st"

text \<open>
  The pushes among the calls, the pops that returned a value among the results, and the
  \<open>Len\<close> calls and their results.
\<close>

fun is_push :: "'a op \<Rightarrow> bool" where
  "is_push (OpPushBack x) = True"
| "is_push (OpPushFront x) = True"
| "is_push a = False"

fun is_popped :: "'a out \<Rightarrow> bool" where
  "is_popped (OutPop v ok) = ok"
| "is_popped r = False"

fun is_len_op :: "'a op \<Rightarrow> bool" where
  "is_len_op OpLen = True"
| "is_len_op a = False"

fun is_len_out :: "'a out \<Rightarrow> bool" where
  "is_len_out (OutLen n) = True"
| "is_len_out r = False"

text \<open>The values that \<open>Each\<close> passes to its callback, in the order of the calls.\<close>

definition visited :: "'a Deque \<Rightarrow> 'a iface list option" where
  "visited d = Each (\<lambda>v acc. acc @ [v]) d []"

section \<open>The operations keep the invariant and refine the sequence model\<close>

declare Each_loop.simps [simp del]

subsection \<open>Single operations\<close>

lemma length_concat_blocks:
  "\<forall>b \<in> set bs. length b = k \<Longrightarrow> length (concat bs) = length bs * k"
  by (induction bs) auto

lemma deque_invE:
  assumes "deque_inv d"
  obtains f b n where "frontIdx d = int f" "f < 64" "backIdx d = int b" "b < 64"
    "len d = int n" "n + f = (length (blocks d) - 1) * 64 + b + 1"
    "blocks d \<noteq> []" "\<forall>blk \<in> set (blocks d). length blk = 64"
proof -
  from assms have nz: "blocks d \<noteq> []" and lb: "\<forall>blk \<in> set (blocks d). length blk = 64"
    by (auto simp: deque_inv_def blockLen_def)
  from assms obtain f where f: "frontIdx d = int f" "f < 64"
    by (auto simp: deque_inv_def blockLen_def elim: nonneg_int_cases)
  from assms obtain b where b: "backIdx d = int b" "b < 64"
    by (auto simp: deque_inv_def blockLen_def elim: nonneg_int_cases)
  from assms have "0 \<le> len d" by (simp add: deque_inv_def)
  then obtain n where n: "len d = int n"
    by (auto elim: nonneg_int_cases)
  from nz have "length (blocks d) \<ge> 1" by (cases "blocks d") auto
  then have k: "int (length (blocks d)) - 1 = int (length (blocks d) - 1)" by simp
  from assms have "len d = (int (length (blocks d)) - 1) * 64 + backIdx d - frontIdx d + 1"
    by (simp add: deque_inv_def blockLen_def)
  then have "int n + int f = int ((length (blocks d) - 1) * 64 + b + 1)"
    unfolding k f b n by simp
  then have "n + f = (length (blocks d) - 1) * 64 + b + 1"
    by (metis of_nat_add of_nat_eq_iff)
  with f b n nz lb show thesis using that by blast
qed

lemma deque_invI:
  assumes "frontIdx d = int f" "f < 64" "backIdx d = int b" "b < 64"
    "len d = int n" "n + f = (length (blocks d) - 1) * 64 + b + 1"
    "blocks d \<noteq> []" "\<forall>blk \<in> set (blocks d). length blk = 64"
  shows "deque_inv d"
proof -
  from assms(7) have "length (blocks d) \<ge> 1" by (cases "blocks d") auto
  then have k: "int (length (blocks d)) - 1 = int (length (blocks d) - 1)" by simp
  have "int n + int f = int ((length (blocks d) - 1) * 64 + b + 1)"
    using assms(6) by (metis of_nat_add)
  then have "len d = (int (length (blocks d)) - 1) * 64 + backIdx d - frontIdx d + 1"
    unfolding k assms(1,3,5) by simp
  then show ?thesis
    using assms by (simp add: deque_inv_def blockLen_def)
qed

lemma PopFront_eval:
  assumes "blocks d = blk # rest" "frontIdx d = int f" "f < length blk" "1 \<le> len d"
  shows "PopFront d = Some ((blk ! f, True),
           (if int f + 1 = 64
            then (if len d = 1
                  then d\<lparr>blocks := blk[f := None] # rest, frontIdx := 32, backIdx := 31, len := 0\<rparr>
                  else d\<lparr>blocks := rest, frontIdx := 0, len := len d - 1\<rparr>)
            else d\<lparr>blocks := blk[f := None] # rest, frontIdx := int f + 1, len := len d - 1\<rparr>))"
  using assms by (simp add: PopFront_def Let_def blockLen_def blockCenter_def recenter_def)

lemma PopFront_step:
  assumes "deque_inv d" "1 \<le> len d"
  shows "\<exists>d'. PopFront d = Some ((hd (contents d), True), d') \<and> deque_inv d' \<and>
           contents d' = tl (contents d) \<and> maxLen d' = maxLen d \<and> len d' = len d - 1"
proof -
  from assms(1) obtain f b n where
    f: "frontIdx d = int f" "f < 64" and b: "backIdx d = int b" "b < 64" and
    n: "len d = int n" and eq: "n + f = (length (blocks d) - 1) * 64 + b + 1" and
    nz: "blocks d \<noteq> []" and lb: "\<forall>blk \<in> set (blocks d). length blk = 64"
    by (rule deque_invE)
  from nz obtain blk rest where bs: "blocks d = blk # rest" by (cases "blocks d") auto
  from lb bs have lblk: "length blk = 64" and lrest: "\<forall>x \<in> set rest. length x = 64" by auto
  have lc: "length (concat rest) = length rest * 64" using lrest by (rule length_concat_blocks)
  from assms(2) n have n1: "1 \<le> n" by simp
  from eq bs have eq': "n + f = length rest * 64 + b + 1" by simp
  have ev: "PopFront d = Some ((blk ! f, True),
           (if int f + 1 = 64
            then (if len d = 1
                  then d\<lparr>blocks := blk[f := None] # rest, frontIdx := 32, backIdx := 31, len := 0\<rparr>
                  else d\<lparr>blocks := rest, frontIdx := 0, len := len d - 1\<rparr>)
            else d\<lparr>blocks := blk[f := None] # rest, frontIdx := int f + 1, len := len d - 1\<rparr>))"
    using bs f(1) _ assms(2) by (rule PopFront_eval) (simp add: lblk f(2))
  have c: "contents d = take n (drop f (blk @ concat rest))"
    by (simp add: contents_def f n bs)
  have dr: "drop f (blk @ concat rest) = blk ! f # drop (Suc f) blk @ concat rest"
    using f(2) lblk by (simp add: Cons_nth_drop_Suc)
  have hdc: "hd (contents d) = blk ! f"
    unfolding c dr using n1 by (cases n) simp_all
  have tlc: "tl (contents d) = take (n - 1) (drop (Suc f) blk @ concat rest)"
    unfolding c dr using n1 by (cases n) simp_all
  consider (mid) "f < 63" | (last1) "f = 63" "n = 1" | (lastn) "f = 63" "1 < n"
    using f(2) n1 by linarith
  then show ?thesis
  proof cases
    case mid
    let ?d' = "d\<lparr>blocks := blk[f := None] # rest, frontIdx := int f + 1, len := len d - 1\<rparr>"
    have 1: "PopFront d = Some ((hd (contents d), True), ?d')"
      using ev mid by (simp add: hdc)
    have 2: "deque_inv ?d'"
      by (rule deque_invI[where f = "Suc f" and b = b and n = "n - 1"])
         (use mid b n n1 eq' lblk lrest in \<open>auto simp: \<close>)
    have 3: "contents ?d' = tl (contents d)"
      unfolding tlc using n1 mid by (simp add: contents_def n f nat_add_distrib nat_diff_distrib' lblk)
    show ?thesis using 1 2 3 by auto
  next
    case last1
    let ?d' = "d\<lparr>blocks := blk[f := None] # rest, frontIdx := 32, backIdx := 31, len := 0\<rparr>"
    have 1: "PopFront d = Some ((hd (contents d), True), ?d')"
      using ev last1 n by (simp add: hdc)
    from eq' last1 b have r0: "rest = []" by (cases rest) auto
    have 2: "deque_inv ?d'"
      by (rule deque_invI[where f = 32 and b = 31 and n = 0])
         (use r0 lblk in \<open>auto simp: \<close>)
    have 3: "contents ?d' = tl (contents d)"
      unfolding tlc using last1 by (simp add: contents_def)
    show ?thesis using 1 2 3 n last1 by auto
  next
    case lastn
    let ?d' = "d\<lparr>blocks := rest, frontIdx := 0, len := len d - 1\<rparr>"
    have 1: "PopFront d = Some ((hd (contents d), True), ?d')"
      using ev lastn n by (simp add: hdc)
    from eq' lastn b have rnz: "rest \<noteq> []" by (cases rest) auto
    then have "length rest \<ge> 1" by (cases rest) auto
    then have "(length rest - 1) * 64 + 64 = length rest * 64" by (simp add: algebra_simps)
    then have 2: "deque_inv ?d'"
      by (intro deque_invI[where f = 0 and b = b and n = "n - 1"])
         (use rnz b n n1 eq' lastn lrest in \<open>auto simp: \<close>)
    have 3: "contents ?d' = tl (contents d)"
      unfolding tlc using lastn lblk n1 by (simp add: contents_def n nat_diff_distrib')
    show ?thesis using 1 2 3 by auto
  qed
qed

lemma take_drop_update_beyond:
  "f + m \<le> i \<Longrightarrow> take m (drop f (xs[i := v])) = take m (drop f xs)"
  by (simp add: drop_update_swap)

lemma PopBack_eval:
  assumes "blocks d \<noteq> []" "backIdx d = int b" "b < length (last (blocks d))" "1 \<le> len d"
  shows "PopBack d = Some ((last (blocks d) ! b, True),
           (if b = 0
            then (if len d = 1
                  then d\<lparr>blocks := butlast (blocks d) @ [(last (blocks d))[b := None]],
                          frontIdx := 32, backIdx := 31, len := 0\<rparr>
                  else d\<lparr>blocks := butlast (blocks d), backIdx := 63, len := len d - 1\<rparr>)
            else d\<lparr>blocks := butlast (blocks d) @ [(last (blocks d))[b := None]],
                    backIdx := int b - 1, len := len d - 1\<rparr>))"
  using assms by (simp add: PopBack_def Let_def blockLen_def blockCenter_def recenter_def)

lemma PopBack_step:
  assumes "deque_inv d" "1 \<le> len d"
  shows "\<exists>d'. PopBack d = Some ((last (contents d), True), d') \<and> deque_inv d' \<and>
           contents d' = butlast (contents d) \<and> maxLen d' = maxLen d \<and> len d' = len d - 1"
proof -
  from assms(1) obtain f b n where
    f: "frontIdx d = int f" "f < 64" and b: "backIdx d = int b" "b < 64" and
    n: "len d = int n" and eq: "n + f = (length (blocks d) - 1) * 64 + b + 1" and
    nz: "blocks d \<noteq> []" and lb: "\<forall>blk \<in> set (blocks d). length blk = 64"
    by (rule deque_invE)
  define blk where "blk = last (blocks d)"
  define rest where "rest = butlast (blocks d)"
  have bs: "blocks d = rest @ [blk]" using nz by (simp add: blk_def rest_def)
  from lb bs have lblk: "length blk = 64" and lrest: "\<forall>x \<in> set rest. length x = 64" by auto
  have lc: "length (concat rest) = length rest * 64" using lrest by (rule length_concat_blocks)
  from assms(2) n have n1: "1 \<le> n" by simp
  from eq bs have eq': "n + f = length rest * 64 + b + 1" by simp
  have ev: "PopBack d = Some ((blk ! b, True),
           (if b = 0
            then (if len d = 1
                  then d\<lparr>blocks := rest @ [blk[b := None]],
                          frontIdx := 32, backIdx := 31, len := 0\<rparr>
                  else d\<lparr>blocks := rest, backIdx := 63, len := len d - 1\<rparr>)
            else d\<lparr>blocks := rest @ [blk[b := None]],
                    backIdx := int b - 1, len := len d - 1\<rparr>))"
    unfolding blk_def rest_def using nz b(1) _ assms(2)
    by (rule PopBack_eval) (use lblk b(2) in \<open>simp add: blk_def\<close>)
  define cs where "cs = concat rest @ blk"
  have lcs: "length cs = length rest * 64 + 64" by (simp add: cs_def lc lblk)
  have c: "contents d = take n (drop f cs)"
    by (simp add: contents_def f n bs cs_def)
  have nle: "n \<le> length (drop f cs)" using eq' b(2) by (simp add: lcs)
  have idx: "f + (n - 1) = length (concat rest) + b"
    using eq' n1 lc by linarith
  have "last (contents d) = drop f cs ! (n - 1)"
    unfolding c using n1 nle by (simp add: last_conv_nth take_eq_Nil)
  also have "\<dots> = cs ! (f + (n - 1))"
    using f(2) by (simp add: lcs)
  also have "\<dots> = blk ! b"
    unfolding idx cs_def by (rule nth_append_length_plus)
  finally have lastc: "last (contents d) = blk ! b" .
  have blc: "butlast (contents d) = take (n - 1) (drop f cs)"
    unfolding c using nle by (simp add: butlast_take)
  have upd: "concat rest @ blk[b := None] = cs[length (concat rest) + b := None]"
    by (simp add: cs_def list_update_append)
  consider (mid) "0 < b" | (last1) "b = 0" "n = 1" | (lastn) "b = 0" "1 < n"
    using n1 by linarith
  then show ?thesis
  proof cases
    case mid
    let ?d' = "d\<lparr>blocks := rest @ [blk[b := None]], backIdx := int b - 1, len := len d - 1\<rparr>"
    have 1: "PopBack d = Some ((last (contents d), True), ?d')"
      using ev mid by (simp add: lastc)
    have 2: "deque_inv ?d'"
      by (rule deque_invI[where f = f and b = "b - 1" and n = "n - 1"])
         (use mid b f n n1 eq' lblk lrest in \<open>auto simp: \<close>)
    have "contents ?d' = take (n - 1) (drop f (cs[length (concat rest) + b := None]))"
      using n1 by (simp add: contents_def n f nat_diff_distrib' flip: upd)
    also have "\<dots> = take (n - 1) (drop f cs)"
      by (rule take_drop_update_beyond) (use idx in simp)
    finally have 3: "contents ?d' = butlast (contents d)" by (simp add: blc)
    show ?thesis using 1 2 3 by auto
  next
    case last1
    let ?d' = "d\<lparr>blocks := rest @ [blk[b := None]], frontIdx := 32, backIdx := 31, len := 0\<rparr>"
    have 1: "PopBack d = Some ((last (contents d), True), ?d')"
      using ev last1 n by (simp add: lastc)
    from eq' last1 f have r0: "rest = []" by (cases rest) auto
    have 2: "deque_inv ?d'"
      by (rule deque_invI[where f = 32 and b = 31 and n = 0])
         (use r0 lblk in \<open>auto simp: \<close>)
    have 3: "contents ?d' = butlast (contents d)"
      unfolding blc using last1 by (simp add: contents_def)
    show ?thesis using 1 2 3 n last1 by auto
  next
    case lastn
    let ?d' = "d\<lparr>blocks := rest, backIdx := 63, len := len d - 1\<rparr>"
    have 1: "PopBack d = Some ((last (contents d), True), ?d')"
      using ev lastn n by (simp add: lastc)
    from eq' lastn f have rnz: "rest \<noteq> []" by (cases rest) auto
    then have "length rest \<ge> 1" by (cases rest) auto
    then have "(length rest - 1) * 64 + 64 = length rest * 64" by (simp add: algebra_simps)
    then have 2: "deque_inv ?d'"
      by (intro deque_invI[where f = f and b = 63 and n = "n - 1"])
         (use rnz f n n1 eq' lastn lrest in \<open>auto simp: \<close>)
    have 3: "contents ?d' = butlast (contents d)"
      unfolding blc cs_def using lastn n1 eq' by (simp add: contents_def n f nat_diff_distrib' lc)
    show ?thesis using 1 2 3 by auto
  qed
qed

lemma length_newBlock: "length newBlock = 64"
  by (simp add: newBlock_def blockLen_def)

lemma PushBack_eval:
  assumes "deque_inv d"
  shows "PushBack item d =
           (if maxLen d > 0 \<and> len d + 1 > maxLen d
            then map_option snd (PopFront (back_stored item d))
            else Some (back_stored item d))"
proof -
  from assms obtain f b n where
    b: "backIdx d = int b" "b < 64" and
    nz: "blocks d \<noteq> []" and lb: "\<forall>blk \<in> set (blocks d). length blk = 64"
    by (rule deque_invE)
  from nz lb have ll: "length (last (blocks d)) = 64" by simp
  show ?thesis
  proof (cases "b = 63")
    case True
    then show ?thesis
      using b by (simp add: PushBack_def back_stored_def Let_def blockLen_def length_newBlock)
  next
    case False
    then have "int b + 1 < 64" "int b \<noteq> 63" using b(2) by auto
    then show ?thesis
      using b nz ll by (simp add: PushBack_def back_stored_def Let_def blockLen_def)
  qed
qed

lemma PushFront_eval:
  assumes "deque_inv d"
  shows "PushFront item d =
           (if maxLen d > 0 \<and> len d + 1 > maxLen d
            then map_option snd (PopBack (front_stored item d))
            else Some (front_stored item d))"
proof -
  from assms obtain f b n where
    f: "frontIdx d = int f" "f < 64" and
    nz: "blocks d \<noteq> []" and lb: "\<forall>blk \<in> set (blocks d). length blk = 64"
    by (rule deque_invE)
  from nz lb have ll: "length (hd (blocks d)) = 64" by simp
  show ?thesis
  proof (cases "f = 0")
    case True
    then show ?thesis
      using f by (simp add: PushFront_def front_stored_def Let_def blockLen_def length_newBlock)
  next
    case False
    then have "int f - 1 < 64" "0 \<le> int f - 1" using f(2) by auto
    then show ?thesis
      using f nz ll False by (simp add: PushFront_def front_stored_def Let_def blockLen_def)
  qed
qed

lemma take_Suc_drop_update:
  "f + n < length xs \<Longrightarrow> take (Suc n) (drop f (xs[f + n := v])) = take n (drop f xs) @ [v]"
  by (simp add: drop_update_swap take_Suc_conv_app_nth)

lemma drop_update_here:
  "i < length xs \<Longrightarrow> drop i (xs[i := v]) = v # drop (Suc i) xs"
  by (simp add: drop_update_swap flip: Cons_nth_drop_Suc)

lemma take1_update0:
  "0 < length xs \<Longrightarrow> take (Suc 0) (xs[0 := x]) = [x]"
  by (cases xs) auto

lemma back_stored_step:
  assumes "deque_inv d"
  shows "deque_inv (back_stored x d) \<and> contents (back_stored x d) = contents d @ [x] \<and>
         maxLen (back_stored x d) = maxLen d \<and> len (back_stored x d) = len d + 1"
proof -
  from assms(1) obtain f b n where
    f: "frontIdx d = int f" "f < 64" and b: "backIdx d = int b" "b < 64" and
    n: "len d = int n" and eq: "n + f = (length (blocks d) - 1) * 64 + b + 1" and
    nz: "blocks d \<noteq> []" and lb: "\<forall>blk \<in> set (blocks d). length blk = 64"
    by (rule deque_invE)
  define blk where "blk = last (blocks d)"
  define rest where "rest = butlast (blocks d)"
  have bs: "blocks d = rest @ [blk]" using nz by (simp add: blk_def rest_def)
  from lb bs have lblk: "length blk = 64" and lrest: "\<forall>x \<in> set rest. length x = 64" by auto
  have lc: "length (concat rest) = length rest * 64" using lrest by (rule length_concat_blocks)
  from eq bs have eq': "n + f = length rest * 64 + b + 1" by simp
  define cs where "cs = concat rest @ blk"
  have lcs: "length cs = length rest * 64 + 64" by (simp add: cs_def lc lblk)
  have ccs: "concat (blocks d) = cs" by (simp add: bs cs_def)
  have c: "contents d = take n (drop f cs)"
    by (simp add: contents_def f n ccs)
  show ?thesis
  proof (cases "b = 63")
    case True
    let ?d' = "d\<lparr>backIdx := 0, blocks := blocks d @ [newBlock[0 := x]], len := len d + 1\<rparr>"
    have st: "back_stored x d = ?d'" using True b by (simp add: back_stored_def)
    have 2: "deque_inv ?d'"
      by (rule deque_invI[where f = f and b = 0 and n = "Suc n"])
         (use True f n eq' bs lb in \<open>auto simp: length_newBlock\<close>)
    have full: "length (drop f cs) = n" "f \<le> length cs" using eq' True by (simp_all add: lcs)
    have nb: "take (Suc 0) (newBlock[0 := x]) = [x]"
      by (rule take1_update0) (simp add: length_newBlock)
    have 3: "contents ?d' = contents d @ [x]"
      unfolding c using full by (simp add: contents_def n f ccs nat_add_distrib nb)
    show ?thesis unfolding st using 2 3 by simp
  next
    case False
    let ?d' = "d\<lparr>backIdx := int b + 1, blocks := rest @ [blk[Suc b := x]], len := len d + 1\<rparr>"
    have st: "back_stored x d = ?d'"
      using False b by (simp add: back_stored_def blk_def rest_def nat_add_distrib)
    have 2: "deque_inv ?d'"
      by (rule deque_invI[where f = f and b = "Suc b" and n = "Suc n"])
         (use False f b n eq' lrest lblk in \<open>auto simp: \<close>)
    have idx: "length (concat rest) + Suc b = f + n" using eq' lc by simp
    have upd: "concat rest @ blk[Suc b := x] = cs[f + n := x]"
      unfolding idx[symmetric] by (simp add: cs_def list_update_append)
    have lt: "f + n < length cs" using eq' False b(2) by (simp add: lcs)
    have "contents ?d' = take (Suc n) (drop f (cs[f + n := x]))"
      by (simp add: contents_def n f nat_add_distrib upd)
    also have "\<dots> = take n (drop f cs) @ [x]"
      using lt by (rule take_Suc_drop_update)
    finally have 3: "contents ?d' = contents d @ [x]" by (simp add: c)
    show ?thesis unfolding st using 2 3 by simp
  qed
qed

lemma front_stored_step:
  assumes "deque_inv d"
  shows "deque_inv (front_stored x d) \<and> contents (front_stored x d) = x # contents d \<and>
         maxLen (front_stored x d) = maxLen d \<and> len (front_stored x d) = len d + 1"
proof -
  from assms(1) obtain f b n where
    f: "frontIdx d = int f" "f < 64" and b: "backIdx d = int b" "b < 64" and
    n: "len d = int n" and eq: "n + f = (length (blocks d) - 1) * 64 + b + 1" and
    nz: "blocks d \<noteq> []" and lb: "\<forall>blk \<in> set (blocks d). length blk = 64"
    by (rule deque_invE)
  from nz obtain blk rest where bs: "blocks d = blk # rest" by (cases "blocks d") auto
  from lb bs have lblk: "length blk = 64" and lrest: "\<forall>x \<in> set rest. length x = 64" by auto
  from eq bs have eq': "n + f = length rest * 64 + b + 1" by simp
  define cs where "cs = blk @ concat rest"
  have ccs: "concat (blocks d) = cs" by (simp add: bs cs_def)
  have c: "contents d = take n (drop f cs)"
    by (simp add: contents_def f n ccs)
  show ?thesis
  proof (cases "f = 0")
    case True
    let ?d' = "d\<lparr>frontIdx := 63, blocks := newBlock[63 := x] # blocks d, len := len d + 1\<rparr>"
    have st: "front_stored x d = ?d'" using True f by (simp add: front_stored_def)
    have 2: "deque_inv ?d'"
      by (rule deque_invI[where f = 63 and b = b and n = "Suc n"])
         (use True f b n eq' bs lb nz in \<open>auto simp: length_newBlock\<close>)
    have nb: "drop 63 (newBlock[63 := x]) = [x]"
      by (simp add: drop_update_here length_newBlock)
    have 3: "contents ?d' = x # contents d"
      unfolding c using True by (simp add: contents_def n ccs nat_add_distrib nb length_newBlock)
    show ?thesis unfolding st using 2 3 by simp
  next
    case False
    define g where "g = f - Suc 0"
    have fg: "f = Suc g" using False by (simp add: g_def)
    let ?d' = "d\<lparr>frontIdx := int g, blocks := blk[g := x] # rest, len := len d + 1\<rparr>"
    have st: "front_stored x d = ?d'"
      using f by (simp add: front_stored_def bs fg)
    have 2: "deque_inv ?d'"
      by (rule deque_invI[where f = g and b = b and n = "Suc n"])
         (use fg f b n eq' lrest lblk in \<open>auto simp: \<close>)
    have lt0: "g < length blk" using f(2) lblk fg by linarith
    have upd: "blk[g := x] @ concat rest = cs[g := x]"
      using lt0 by (simp add: cs_def list_update_append)
    have lt: "g < length cs" using lt0 by (simp add: cs_def)
    have "contents ?d' = take (Suc n) (drop g (cs[g := x]))"
      by (simp add: contents_def n nat_add_distrib upd)
    also have "\<dots> = take (Suc n) (x # drop (Suc g) cs)"
      using lt by (simp only: drop_update_here)
    also have "\<dots> = x # take n (drop f cs)" by (simp add: fg)
    finally have 3: "contents ?d' = x # contents d" by (simp add: c)
    show ?thesis unfolding st using 2 3 by simp
  qed
qed

lemma length_contents:
  assumes "deque_inv d"
  shows "int (length (contents d)) = len d"
proof -
  from assms(1) obtain f b n where
    f: "frontIdx d = int f" "f < 64" and b: "backIdx d = int b" "b < 64" and
    n: "len d = int n" and eq: "n + f = (length (blocks d) - 1) * 64 + b + 1" and
    nz: "blocks d \<noteq> []" and lb: "\<forall>blk \<in> set (blocks d). length blk = 64"
    by (rule deque_invE)
  have lc: "length (concat (blocks d)) = length (blocks d) * 64"
    using lb by (rule length_concat_blocks)
  from nz have "length (blocks d) \<ge> 1" by (cases "blocks d") auto
  then have "(length (blocks d) - 1) * 64 + 64 = length (blocks d) * 64"
    by (simp add: algebra_simps)
  with eq b(2) have "n + f \<le> length (blocks d) * 64" by linarith
  then show ?thesis by (simp add: contents_def f n lc)
qed

lemma PushBack_step:
  assumes "deque_inv d"
  shows "\<exists>d'. PushBack x d = Some d' \<and> deque_inv d' \<and> maxLen d' = maxLen d \<and>
           contents d' = (if 0 < maxLen d \<and> maxLen d < len d + 1
                          then tl (contents d @ [x]) else contents d @ [x])"
proof (cases "0 < maxLen d \<and> maxLen d < len d + 1")
  case True
  let ?s = "back_stored x d"
  have st: "deque_inv ?s" "contents ?s = contents d @ [x]" "maxLen ?s = maxLen d"
    "len ?s = len d + 1"
    using back_stored_step[OF assms, of x] by simp_all
  from assms have "0 \<le> len d" by (simp add: deque_inv_def)
  then have "1 \<le> len ?s" by (simp add: st)
  from PopFront_step[OF st(1) this] obtain d' where
    "PopFront ?s = Some ((hd (contents ?s), True), d')" "deque_inv d'"
    "contents d' = tl (contents ?s)" "maxLen d' = maxLen ?s"
    by blast
  then show ?thesis
    using True by (simp add: PushBack_eval[OF assms] st)
next
  case False
  then show ?thesis
    using back_stored_step[OF assms, of x] by (auto simp: PushBack_eval[OF assms])
qed

lemma PushFront_step:
  assumes "deque_inv d"
  shows "\<exists>d'. PushFront x d = Some d' \<and> deque_inv d' \<and> maxLen d' = maxLen d \<and>
           contents d' = (if 0 < maxLen d \<and> maxLen d < len d + 1
                          then butlast (x # contents d) else x # contents d)"
proof (cases "0 < maxLen d \<and> maxLen d < len d + 1")
  case True
  let ?s = "front_stored x d"
  have st: "deque_inv ?s" "contents ?s = x # contents d" "maxLen ?s = maxLen d"
    "len ?s = len d + 1"
    using front_stored_step[OF assms, of x] by simp_all
  from assms have "0 \<le> len d" by (simp add: deque_inv_def)
  then have "1 \<le> len ?s" by (simp add: st)
  from PopBack_step[OF st(1) this] obtain d' where
    "PopBack ?s = Some ((last (contents ?s), True), d')" "deque_inv d'"
    "contents d' = butlast (contents ?s)" "maxLen d' = maxLen ?s"
    by blast
  then show ?thesis
    using True by (simp add: PushFront_eval[OF assms] st)
next
  case False
  then show ?thesis
    using front_stored_step[OF assms, of x] by (auto simp: PushFront_eval[OF assms])
qed

subsection \<open>Call sequences\<close>

lemma apply_op_refines:
  assumes "deque_inv d"
  shows "\<exists>d'. apply_op a d = Some (fst (spec_op (maxLen d) a (contents d)), d') \<and>
           deque_inv d' \<and> maxLen d' = maxLen d \<and>
           contents d' = snd (spec_op (maxLen d) a (contents d))"
proof (cases a)
  case (OpPushBack x)
  then show ?thesis
    using PushBack_step[OF assms, of x] by (auto simp: length_contents[OF assms])
next
  case (OpPushFront x)
  then show ?thesis
    using PushFront_step[OF assms, of x] by (auto simp: length_contents[OF assms])
next
  case OpPopBack
  show ?thesis
  proof (cases "1 \<le> len d")
    case True
    then have "contents d \<noteq> []" using length_contents[OF assms] by auto
    then show ?thesis
      using PopBack_step[OF assms True] OpPopBack by auto
  next
    case False
    then have "contents d = []" using length_contents[OF assms] by (cases "contents d") auto
    then show ?thesis
      using False assms OpPopBack by (simp add: PopBack_def)
  qed
next
  case OpPopFront
  show ?thesis
  proof (cases "1 \<le> len d")
    case True
    then have "contents d \<noteq> []" using length_contents[OF assms] by auto
    then show ?thesis
      using PopFront_step[OF assms True] OpPopFront by auto
  next
    case False
    then have "contents d = []" using length_contents[OF assms] by (cases "contents d") auto
    then show ?thesis
      using False assms OpPopFront by (simp add: PopFront_def)
  qed
next
  case OpLen
  then show ?thesis
    using assms by (simp add: Len_def length_contents)
qed

lemma run_refines:
  assumes "deque_inv d"
  shows "\<exists>d'. run as d = Some (fst (spec_run (maxLen d) as (contents d)), d') \<and>
           deque_inv d' \<and> maxLen d' = maxLen d \<and>
           contents d' = snd (spec_run (maxLen d) as (contents d))"
  using assms
proof (induction as arbitrary: d)
  case Nil
  then show ?case by simp
next
  case (Cons a as)
  from apply_op_refines[OF Cons.prems, of a] obtain d1 where
    1: "apply_op a d = Some (fst (spec_op (maxLen d) a (contents d)), d1)" "deque_inv d1"
       "maxLen d1 = maxLen d" "contents d1 = snd (spec_op (maxLen d) a (contents d))"
    by blast
  from Cons.IH[OF 1(2)] obtain d2 where
    2: "run as d1 = Some (fst (spec_run (maxLen d1) as (contents d1)), d2)" "deque_inv d2"
       "maxLen d2 = maxLen d1" "contents d2 = snd (spec_run (maxLen d1) as (contents d1))"
    by blast
  show ?case
    using 1 2 by (simp add: split_beta)
qed

lemma deque_inv_New: "deque_inv (NewDequeWithMaxLen m)"
  by (simp add: deque_inv_def NewDequeWithMaxLen_def recenter_def blockCenter_def blockLen_def
      newBlock_def)

lemma contents_New: "contents (NewDequeWithMaxLen m) = []"
  by (simp add: contents_def NewDequeWithMaxLen_def recenter_def)

lemma maxLen_New: "maxLen (NewDequeWithMaxLen m) = m"
  by (simp add: NewDequeWithMaxLen_def recenter_def)

subsection \<open>Traversal\<close>

lemma Each_loop_fold:
  assumes "\<forall>b \<in> set elems. length b = 64" "elems \<noteq> []" "p \<le> 64"
    "n - index = int r" "p + r \<le> length elems * 64"
  shows "Each_loop f n index (int p - 1) elems (hd elems) s =
           Some (fold f (take r (drop p (concat elems))) s)"
  using assms
proof (induction r arbitrary: index p elems s)
  case 0
  then show ?case by (subst Each_loop.simps) simp
next
  case (Suc r)
  from Suc.prems(2) obtain b0 es where el: "elems = b0 # es" by (cases elems) auto
  from Suc.prems(1) el have l0: "length b0 = 64" and les: "\<forall>b \<in> set es. length b = 64" by auto
  from Suc.prems(4) have lt: "index < n" and nx: "n - (index + 1) = int r" by auto
  show ?case
  proof (cases "p = 64")
    case True
    with Suc.prems(5) el have "es \<noteq> []" by (cases es) auto
    then obtain b1 es' where es: "es = b1 # es'" by (cases es) auto
    from les es have l1: "length b1 = 64" by simp
    then obtain v vs where b1: "b1 = v # vs" by (cases b1) auto
    have pre: "0 + 1 + r \<le> length es * 64" using Suc.prems(5) True el by simp
    have ih: "Each_loop f n (index + 1) (int (0 + 1) - 1) es (hd es) (f v s) =
                Some (fold f (take r (drop (0 + 1) (concat es))) (f v s))"
      by (rule Suc.IH) (use les es nx pre in auto)
    have step: "Each_loop f n index (int p - 1) elems (hd elems) s =
                  Each_loop f n (index + 1) 0 es b1 (f v s)"
      by (subst Each_loop.simps) (use lt True el es l1 b1 in \<open>simp add: blockLen_def\<close>)
    have "take (Suc r) (drop p (concat elems)) = v # take r (drop 1 (concat es))"
      using True l0 by (simp add: el es b1)
    then show ?thesis using step ih es by simp
  next
    case False
    with Suc.prems(3) have p: "p < 64" by simp
    have pre: "Suc p + r \<le> length elems * 64" using Suc.prems(5) by simp
    have ih: "Each_loop f n (index + 1) (int (Suc p) - 1) elems (hd elems) (f (b0 ! p) s) =
                Some (fold f (take r (drop (Suc p) (concat elems))) (f (b0 ! p) s))"
      by (rule Suc.IH) (use Suc.prems(1,2) p nx pre in auto)
    have step: "Each_loop f n index (int p - 1) elems (hd elems) s =
                  Each_loop f n (index + 1) (int p) elems b0 (f (b0 ! p) s)"
      by (subst Each_loop.simps) (use lt p el l0 in \<open>simp add: blockLen_def\<close>)
    have "drop p (concat elems) = b0 ! p # drop (Suc p) (concat elems)"
      using p l0 by (simp add: el Cons_nth_drop_Suc)
    then have "take (Suc r) (drop p (concat elems)) = b0 ! p # take r (drop (Suc p) (concat elems))"
      by simp
    then show ?thesis using step ih el by simp
  qed
qed

lemma Each_fold:
  assumes "deque_inv d"
  shows "Each f d s = Some (fold f (contents d) s)"
proof -
  from assms(1) obtain fi b n where
    f: "frontIdx d = int fi" "fi < 64" and b: "backIdx d = int b" "b < 64" and
    n: "len d = int n" and eq: "n + fi = (length (blocks d) - 1) * 64 + b + 1" and
    nz: "blocks d \<noteq> []" and lb: "\<forall>blk \<in> set (blocks d). length blk = 64"
    by (rule deque_invE)
  from nz obtain blk rest where bs: "blocks d = blk # rest" by (cases "blocks d") auto
  from eq bs b(2) have le: "fi + n \<le> length (blocks d) * 64" by simp
  have "Each_loop f (len d) 0 (int fi - 1) (blocks d) (hd (blocks d)) s =
          Some (fold f (take n (drop fi (concat (blocks d)))) s)"
    by (rule Each_loop_fold) (use lb nz f(2) n le in auto)
  then show ?thesis
    by (simp add: Each_def bs contents_def f n)
qed

subsection \<open>Facts about the sequence model\<close>

lemma spec_run_append:
  "spec_run K (as @ bs) xs =
     (fst (spec_run K as xs) @ fst (spec_run K bs (snd (spec_run K as xs))),
      snd (spec_run K bs (snd (spec_run K as xs))))"
  by (induction as arbitrary: xs) (auto simp: split_beta)

lemma spec_run_push_back:
  "K \<le> 0 \<Longrightarrow> spec_run K (map OpPushBack xs) ys = (replicate (length xs) OutUnit, ys @ xs)"
  by (induction xs arbitrary: ys) auto

lemma spec_run_push_front:
  "K \<le> 0 \<Longrightarrow> spec_run K (map OpPushFront xs) ys = (replicate (length xs) OutUnit, rev xs @ ys)"
  by (induction xs arbitrary: ys) auto

lemma spec_run_pop_front:
  "spec_run K (replicate (length xs) OpPopFront) (xs @ zs) = (map (\<lambda>x. OutPop x True) xs, zs)"
  by (induction xs) auto

lemma spec_run_pop_back:
  "spec_run K (replicate (length xs) OpPopBack) (zs @ xs) = (map (\<lambda>x. OutPop x True) (rev xs), zs)"
proof (induction xs rule: rev_induct)
  case Nil
  then show ?case by simp
next
  case (snoc x xs)
  have "spec_run K (replicate (length xs) OpPopBack) ((zs @ xs)) = (map (\<lambda>x. OutPop x True) (rev xs), zs)"
    by (rule snoc.IH)
  then show ?case by (simp add: butlast_append flip: append_assoc)
qed

lemma spec_run_back_stack:
  "K \<le> 0 \<Longrightarrow> fst (spec_run K (map back_op as) (rev st)) = stack_run as st"
proof (induction as st rule: stack_run.induct)
  case (2 x as st)
  then show ?case by (simp add: split_beta)
next
  case (4 as y st)
  then show ?case by (simp add: split_beta)
qed (simp_all add: split_beta)

lemma spec_run_front_stack:
  "K \<le> 0 \<Longrightarrow> fst (spec_run K (map front_op as) st) = stack_run as st"
  by (induction as st rule: stack_run.induct) (simp_all add: split_beta)

lemma spec_run_bounded_back:
  assumes "0 < K" "int (length ys) \<le> K"
  shows "spec_run K (map OpPushBack xs) ys =
           (replicate (length xs) OutUnit, drop (length (ys @ xs) - nat K) (ys @ xs))"
  using assms(2)
proof (induction xs arbitrary: ys)
  case Nil
  then show ?case by simp
next
  case (Cons x xs)
  show ?case
  proof (cases "K < int (length ys) + 1")
    case True
    with Cons.prems have l: "length ys = nat K" by simp
    with assms(1) have nz: "ys \<noteq> []" by auto
    have ih: "spec_run K (map OpPushBack xs) (tl ys @ [x]) =
       (replicate (length xs) OutUnit, drop (length ((tl ys @ [x]) @ xs) - nat K) ((tl ys @ [x]) @ xs))"
      by (rule Cons.IH) (use l nz assms(1) in simp)
    from nz obtain a list where ys: "ys = a # list" by (cases ys) auto
    with l have k: "nat K = Suc (length list)" by simp
    have "drop (length ((tl ys @ [x]) @ xs) - nat K) ((tl ys @ [x]) @ xs) =
          drop (length (ys @ x # xs) - nat K) (ys @ x # xs)"
      by (simp add: ys k)
    then show ?thesis using True assms(1) nz ih by simp
  next
    case False
    have ih: "spec_run K (map OpPushBack xs) (ys @ [x]) =
       (replicate (length xs) OutUnit, drop (length ((ys @ [x]) @ xs) - nat K) ((ys @ [x]) @ xs))"
      by (rule Cons.IH) (use False in simp)
    then show ?thesis using False by simp
  qed
qed

lemma spec_run_bounded_front:
  assumes "0 < K" "int (length ys) \<le> K"
  shows "spec_run K (map OpPushFront xs) ys =
           (replicate (length xs) OutUnit, take (nat K) (rev xs @ ys))"
  using assms(2)
proof (induction xs arbitrary: ys)
  case Nil
  then show ?case by simp
next
  case (Cons x xs)
  show ?case
  proof (cases "K < int (length ys) + 1")
    case True
    with Cons.prems have l: "length ys = nat K" by simp
    with assms(1) have nz: "ys \<noteq> []" by auto
    have ih: "spec_run K (map OpPushFront xs) (x # butlast ys) =
       (replicate (length xs) OutUnit, take (nat K) (rev xs @ x # butlast ys))"
      by (rule Cons.IH) (use l nz assms(1) in simp)
    have "take (nat K) (rev xs @ x # butlast ys) = take (nat K) (rev xs @ x # ys)"
      using l nz by (simp add: butlast_conv_take take_Cons' min_def)
    then show ?thesis using True assms(1) nz ih by simp
  next
    case False
    have ih: "spec_run K (map OpPushFront xs) (x # ys) =
       (replicate (length xs) OutUnit, take (nat K) (rev xs @ x # ys))"
      by (rule Cons.IH) (use False in simp)
    then show ?thesis using False by simp
  qed
qed



lemma spec_run_count:
  "K \<le> 0 \<Longrightarrow>
     int (length (snd (spec_run K as xs))) =
       int (length xs) + int (length (filter is_push as))
         - int (length (filter is_popped (fst (spec_run K as xs))))"
proof (induction as arbitrary: xs)
  case Nil
  then show ?case by simp
next
  case (Cons a as)
  have ih: "int (length (snd (spec_run K as (snd (spec_op K a xs))))) =
       int (length (snd (spec_op K a xs))) + int (length (filter is_push as))
         - int (length (filter is_popped (fst (spec_run K as (snd (spec_op K a xs))))))"
    using Cons.prems by (rule Cons.IH)
  have bl: "int (length xs - Suc 0) = int (length xs) - 1" if "xs \<noteq> []"
    using that by (cases xs) auto
  show ?case
    using Cons.prems ih by (cases a) (auto simp: split_beta bl)
qed

lemma spec_run_unbounded_eq:
  "K \<le> 0 \<Longrightarrow> spec_run K as xs = spec_run 0 as xs"
proof (induction as arbitrary: xs)
  case Nil
  then show ?case by simp
next
  case (Cons a as)
  have "spec_op K a xs = spec_op 0 a xs" using Cons.prems by (cases a) auto
  then show ?case using Cons by simp
qed

section \<open>The claims of the specification\<close>

lemma run_New:
  "\<exists>d. run as (NewDequeWithMaxLen m) = Some (fst (spec_run m as []), d) \<and>
        deque_inv d \<and> maxLen d = m \<and> contents d = snd (spec_run m as [])"
  using run_refines[OF deque_inv_New, of as m] by (simp add: maxLen_New contents_New)

lemma fold_snoc: "fold (\<lambda>v acc. acc @ [v]) xs ys = ys @ xs"
  by (induction xs arbitrary: ys) auto

lemma visited_contents: "deque_inv d \<Longrightarrow> visited d = Some (contents d)"
  by (simp add: visited_def Each_fold fold_snoc)

text \<open>
  Claim C1. On a fresh unbounded deque (\<open>maxLen \<le> 0\<close>), pushing the values \<open>xs\<close> with
  \<open>PushBack\<close> and then calling \<open>PopFront\<close> \<open>length xs\<close> times returns exactly \<open>xs\<close>
  in push order, each with the flag \<open>true\<close>; pushing with \<open>PushFront\<close> and popping with
  \<open>PopBack\<close> does the same; and any mix of pushes and pops on one end only (back or
  front) returns what a stack returns.
\<close>

theorem C1_fifo_lifo:
  fixes xs :: "'a iface list" and as :: "'a stack_op list"
  assumes "m \<le> 0"
  shows "(\<exists>d. run (map OpPushBack xs @ replicate (length xs) OpPopFront) (NewDequeWithMaxLen m)
               = Some (replicate (length xs) OutUnit @ map (\<lambda>x. OutPop x True) xs, d)) \<and>
         (\<exists>d. run (map OpPushFront xs @ replicate (length xs) OpPopBack) (NewDequeWithMaxLen m)
               = Some (replicate (length xs) OutUnit @ map (\<lambda>x. OutPop x True) xs, d)) \<and>
         (\<exists>d. run (map back_op as) (NewDequeWithMaxLen m) = Some (stack_run as [], d)) \<and>
         (\<exists>d. run (map front_op as) (NewDequeWithMaxLen m) = Some (stack_run as [], d))"
proof (intro conjI)
  show "\<exists>d. run (map OpPushBack xs @ replicate (length xs) OpPopFront) (NewDequeWithMaxLen m)
               = Some (replicate (length xs) OutUnit @ map (\<lambda>x. OutPop x True) xs, d)"
    using run_New[of "map OpPushBack xs @ replicate (length xs) OpPopFront" m]
      spec_run_pop_front[of m xs "[]"]
    by (auto simp: spec_run_append spec_run_push_back[OF assms])
  show "\<exists>d. run (map OpPushFront xs @ replicate (length xs) OpPopBack) (NewDequeWithMaxLen m)
               = Some (replicate (length xs) OutUnit @ map (\<lambda>x. OutPop x True) xs, d)"
    using run_New[of "map OpPushFront xs @ replicate (length xs) OpPopBack" m]
      spec_run_pop_back[of m "rev xs" "[]"]
    by (auto simp: spec_run_append spec_run_push_front[OF assms])
  show "\<exists>d. run (map back_op as) (NewDequeWithMaxLen m) = Some (stack_run as [], d)"
    using run_New[of "map back_op as" m] spec_run_back_stack[OF assms, of as "[]"] by auto
  show "\<exists>d. run (map front_op as) (NewDequeWithMaxLen m) = Some (stack_run as [], d)"
    using run_New[of "map front_op as" m] spec_run_front_stack[OF assms, of as "[]"] by auto
qed

theorem C1_fifo_lifo_witness:
  "(0::int) \<le> 0 \<and>
   (\<exists>d. run [OpPushBack (Some (1::nat)), OpPushBack (Some 2), OpPushBack (Some 3),
             OpPopFront, OpPopFront, OpPopFront] NewDeque
        = Some ([OutUnit, OutUnit, OutUnit,
                 OutPop (Some 1) True, OutPop (Some 2) True, OutPop (Some 3) True], d)) \<and>
   (\<exists>d. run [OpPushFront (Some (1::nat)), OpPushFront (Some 2), OpPushFront (Some 3),
             OpPopBack, OpPopBack, OpPopBack] NewDeque
        = Some ([OutUnit, OutUnit, OutUnit,
                 OutPop (Some 1) True, OutPop (Some 2) True, OutPop (Some 3) True], d)) \<and>
   (\<exists>d. run [OpPushBack (Some (1::nat)), OpPushBack (Some 2), OpPopBack, OpPushBack (Some 3),
             OpPopBack, OpPopBack, OpPopBack] NewDeque
        = Some ([OutUnit, OutUnit, OutPop (Some 2) True, OutUnit,
                 OutPop (Some 3) True, OutPop (Some 1) True, OutPop None False], d)) \<and>
   (\<exists>d. run [OpPushFront (Some (1::nat)), OpPushFront (Some 2), OpPopFront, OpPushFront (Some 3),
             OpPopFront, OpPopFront, OpPopFront] NewDeque
        = Some ([OutUnit, OutUnit, OutPop (Some 2) True, OutUnit,
                 OutPop (Some 3) True, OutPop (Some 1) True, OutPop None False], d))"
  using C1_fifo_lifo[of 0 "[Some (1::nat), Some 2, Some 3]"
      "[Push (Some 1), Push (Some 2), Pop, Push (Some 3), Pop, Pop, Pop]"]
  by (simp add: NewDeque_def del: run.simps)

text \<open>
  Claim C6. Round trip on a fresh unbounded deque: values pushed at one end and popped
  from the same end come back in reverse order of insertion (back/back and front/front);
  popped from the opposite end they come back in insertion order (back/front and
  front/back). The values need not be distinct.
\<close>

theorem C6_round_trip:
  fixes xs :: "'a iface list"
  assumes "m \<le> 0"
  shows "(\<exists>d. run (map OpPushBack xs @ replicate (length xs) OpPopBack) (NewDequeWithMaxLen m)
               = Some (replicate (length xs) OutUnit @ map (\<lambda>x. OutPop x True) (rev xs), d)) \<and>
         (\<exists>d. run (map OpPushFront xs @ replicate (length xs) OpPopFront) (NewDequeWithMaxLen m)
               = Some (replicate (length xs) OutUnit @ map (\<lambda>x. OutPop x True) (rev xs), d)) \<and>
         (\<exists>d. run (map OpPushBack xs @ replicate (length xs) OpPopFront) (NewDequeWithMaxLen m)
               = Some (replicate (length xs) OutUnit @ map (\<lambda>x. OutPop x True) xs, d)) \<and>
         (\<exists>d. run (map OpPushFront xs @ replicate (length xs) OpPopBack) (NewDequeWithMaxLen m)
               = Some (replicate (length xs) OutUnit @ map (\<lambda>x. OutPop x True) xs, d))"
proof (intro conjI)
  show "\<exists>d. run (map OpPushBack xs @ replicate (length xs) OpPopBack) (NewDequeWithMaxLen m)
               = Some (replicate (length xs) OutUnit @ map (\<lambda>x. OutPop x True) (rev xs), d)"
    using run_New[of "map OpPushBack xs @ replicate (length xs) OpPopBack" m]
      spec_run_pop_back[of m xs "[]"]
    by (auto simp: spec_run_append spec_run_push_back[OF assms])
  show "\<exists>d. run (map OpPushFront xs @ replicate (length xs) OpPopFront) (NewDequeWithMaxLen m)
               = Some (replicate (length xs) OutUnit @ map (\<lambda>x. OutPop x True) (rev xs), d)"
    using run_New[of "map OpPushFront xs @ replicate (length xs) OpPopFront" m]
      spec_run_pop_front[of m "rev xs" "[]"]
    by (auto simp: spec_run_append spec_run_push_front[OF assms])
  show "\<exists>d. run (map OpPushBack xs @ replicate (length xs) OpPopFront) (NewDequeWithMaxLen m)
               = Some (replicate (length xs) OutUnit @ map (\<lambda>x. OutPop x True) xs, d)"
    using run_New[of "map OpPushBack xs @ replicate (length xs) OpPopFront" m]
      spec_run_pop_front[of m xs "[]"]
    by (auto simp: spec_run_append spec_run_push_back[OF assms])
  show "\<exists>d. run (map OpPushFront xs @ replicate (length xs) OpPopBack) (NewDequeWithMaxLen m)
               = Some (replicate (length xs) OutUnit @ map (\<lambda>x. OutPop x True) xs, d)"
    using run_New[of "map OpPushFront xs @ replicate (length xs) OpPopBack" m]
      spec_run_pop_back[of m "rev xs" "[]"]
    by (auto simp: spec_run_append spec_run_push_front[OF assms])
qed

theorem C6_round_trip_witness:
  "(0::int) \<le> 0 \<and>
   (\<exists>d. run [OpPushBack (Some (1::nat)), OpPushBack (Some 2), OpPushBack (Some 3),
             OpPopBack, OpPopBack, OpPopBack] NewDeque
        = Some ([OutUnit, OutUnit, OutUnit,
                 OutPop (Some 3) True, OutPop (Some 2) True, OutPop (Some 1) True], d)) \<and>
   (\<exists>d. run [OpPushFront (Some (1::nat)), OpPushFront (Some 2), OpPushFront (Some 3),
             OpPopFront, OpPopFront, OpPopFront] NewDeque
        = Some ([OutUnit, OutUnit, OutUnit,
                 OutPop (Some 3) True, OutPop (Some 2) True, OutPop (Some 1) True], d)) \<and>
   (\<exists>d. run [OpPushBack (Some (1::nat)), OpPushBack (Some 2), OpPushBack (Some 3),
             OpPopFront, OpPopFront, OpPopFront] NewDeque
        = Some ([OutUnit, OutUnit, OutUnit,
                 OutPop (Some 1) True, OutPop (Some 2) True, OutPop (Some 3) True], d)) \<and>
   (\<exists>d. run [OpPushFront (Some (1::nat)), OpPushFront (Some 2), OpPushFront (Some 3),
             OpPopBack, OpPopBack, OpPopBack] NewDeque
        = Some ([OutUnit, OutUnit, OutUnit,
                 OutPop (Some 1) True, OutPop (Some 2) True, OutPop (Some 3) True], d))"
  using C6_round_trip[of 0 "[Some (1::nat), Some 2, Some 3]"]
  by (simp add: NewDeque_def del: run.simps)

text \<open>
  Claim C3. In every state with \<open>len = 0\<close>, \<open>PopFront\<close> and \<open>PopBack\<close> return
  \<open>(nil, false)\<close> without a panic and leave the deque as it was, so that whatever is run
  afterwards behaves as it would have without the failed pop.
\<close>

theorem C3_pop_empty:
  assumes "len d = 0"
  shows "PopFront d = Some ((None, False), d) \<and> PopBack d = Some ((None, False), d) \<and>
         run (OpPopFront # as) d = map_option (\<lambda>(rs, d'). (OutPop None False # rs, d')) (run as d) \<and>
         run (OpPopBack # as) d = map_option (\<lambda>(rs, d'). (OutPop None False # rs, d')) (run as d)"
proof -
  have f: "PopFront d = Some ((None, False), d)" using assms by (simp add: PopFront_def)
  have b: "PopBack d = Some ((None, False), d)" using assms by (simp add: PopBack_def)
  show ?thesis
    using f b by (cases "run as d") auto
qed

theorem C3_pop_empty_witness:
  "len (NewDeque :: nat Deque) = 0 \<and>
   PopFront (NewDeque :: nat Deque) = Some ((None, False), NewDeque) \<and>
   PopBack (NewDeque :: nat Deque) = Some ((None, False), NewDeque) \<and>
   run [OpPopFront, OpPopBack, OpLen] (NewDeque :: nat Deque)
     = Some ([OutPop None False, OutPop None False, OutLen 0], NewDeque)"
proof -
  have l: "len (NewDeque :: nat Deque) = 0"
    by (simp add: NewDeque_def NewDequeWithMaxLen_def recenter_def)
  from C3_pop_empty[OF l, of "[OpPopBack, OpLen]"] C3_pop_empty[OF l, of "[OpLen]"]
  show ?thesis using l by (simp add: Len_def)
qed

lemma Len_contents: "deque_inv d \<Longrightarrow> Len d = int (length (contents d))"
  by (simp add: Len_def length_contents)

text \<open>
  Claim C2. A deque built with \<open>maxLen = K > 0\<close> that receives more than \<open>K\<close> items at
  the back has length \<open>K\<close> and holds exactly the last \<open>K\<close> items pushed, in push order
  (what \<open>Each\<close> visits and what \<open>K\<close> calls of \<open>PopFront\<close> return); the oldest items
  are the ones dropped. On this full deque a further \<open>PushBack\<close> drops the front item and
  a \<open>PushFront\<close> drops the back item; a push returns no value, so the dropped item is
  not reported.
\<close>

theorem C2_bounded_window:
  fixes xs :: "'a iface list"
  assumes "0 < K" "K < int (length xs)"
  shows "\<exists>d. run (map OpPushBack xs) (NewDequeWithMaxLen K) = Some (replicate (length xs) OutUnit, d) \<and>
           Len d = K \<and>
           visited d = Some (drop (length xs - nat K) xs) \<and>
           (\<exists>d'. run (replicate (nat K) OpPopFront) d
                   = Some (map (\<lambda>x. OutPop x True) (drop (length xs - nat K) xs), d') \<and> Len d' = 0) \<and>
           (\<forall>x. \<exists>d1. PushBack x d = Some d1 \<and> Len d1 = K \<and>
                  visited d1 = Some (tl (drop (length xs - nat K) xs) @ [x])) \<and>
           (\<forall>x. \<exists>d1. PushFront x d = Some d1 \<and> Len d1 = K \<and>
                  visited d1 = Some (x # butlast (drop (length xs - nat K) xs)))"
proof -
  define ys where "ys = drop (length xs - nat K) xs"
  have lys: "length ys = nat K" using assms by (simp add: ys_def)
  have ynz: "ys \<noteq> []" using lys assms(1) by auto
  have sr: "spec_run K (map OpPushBack xs) [] = (replicate (length xs) OutUnit, ys)"
    using spec_run_bounded_back[OF assms(1), of "[]" xs] assms(1) by (simp add: ys_def)
  from run_New[of "map OpPushBack xs" K] obtain d where
    d: "run (map OpPushBack xs) (NewDequeWithMaxLen K) = Some (replicate (length xs) OutUnit, d)"
       "deque_inv d" "maxLen d = K" "contents d = ys"
    by (auto simp: sr)
  have len: "Len d = K" using d(2,4) lys assms(1) by (simp add: Len_contents)
  have vis: "visited d = Some ys" using d(2,4) by (simp add: visited_contents)
  from run_refines[OF d(2), of "replicate (nat K) OpPopFront"] obtain d' where
    d': "run (replicate (nat K) OpPopFront) d = Some (map (\<lambda>x. OutPop x True) ys, d')"
       "deque_inv d'" "contents d' = []"
    using spec_run_pop_front[of K ys "[]"] by (auto simp: d(3,4) lys)
  have len': "Len d' = 0" using d'(2,3) by (simp add: Len_contents)
  have pb: "\<exists>d1. PushBack x d = Some d1 \<and> Len d1 = K \<and> visited d1 = Some (tl ys @ [x])" for x
  proof -
    from PushBack_step[OF d(2), of x] obtain d1 where
      1: "PushBack x d = Some d1" "deque_inv d1" "contents d1 = tl (ys @ [x])"
      using len assms(1) by (auto simp: d(3,4) Len_def)
    have "tl (ys @ [x]) = tl ys @ [x]" using ynz by simp
    then show ?thesis
      using 1 ynz lys assms(1) by (simp add: Len_contents visited_contents)
  qed
  have pf: "\<exists>d1. PushFront x d = Some d1 \<and> Len d1 = K \<and> visited d1 = Some (x # butlast ys)" for x
  proof -
    from PushFront_step[OF d(2), of x] obtain d1 where
      1: "PushFront x d = Some d1" "deque_inv d1" "contents d1 = butlast (x # ys)"
      using len assms(1) by (auto simp: d(3,4) Len_def)
    then show ?thesis
      using ynz lys assms(1) by (simp add: Len_contents visited_contents)
  qed
  show ?thesis
    unfolding ys_def[symmetric] using d(1) len vis d'(1) len' pb pf by blast
qed

theorem C2_bounded_window_witness:
  "(0::int) < 2 \<and> (2::int) < int (length [Some (1::nat), Some 2, Some 3, Some 4, Some 5]) \<and>
   (\<exists>d. run [OpPushBack (Some (1::nat)), OpPushBack (Some 2), OpPushBack (Some 3),
             OpPushBack (Some 4), OpPushBack (Some 5)] (NewDequeWithMaxLen 2)
          = Some ([OutUnit, OutUnit, OutUnit, OutUnit, OutUnit], d) \<and>
        Len d = 2 \<and> visited d = Some [Some 4, Some 5] \<and>
        (\<exists>d'. run [OpPopFront, OpPopFront] d
                = Some ([OutPop (Some 4) True, OutPop (Some 5) True], d') \<and> Len d' = 0) \<and>
        (\<exists>d1. PushBack (Some 6) d = Some d1 \<and> Len d1 = 2 \<and> visited d1 = Some [Some 5, Some 6]) \<and>
        (\<exists>d1. PushFront (Some 6) d = Some d1 \<and> Len d1 = 2 \<and> visited d1 = Some [Some 6, Some 4]))"
proof -
  have h: "(0::int) < 2" "(2::int) < int (length [Some (1::nat), Some 2, Some 3, Some 4, Some 5])"
    by simp_all
  have n: "replicate 2 a = [a, a]" for a :: "nat op" by (simp add: numeral_2_eq_2)
  from C2_bounded_window[OF h] obtain d where
    "run (map OpPushBack [Some (1::nat), Some 2, Some 3, Some 4, Some 5]) (NewDequeWithMaxLen 2)
       = Some (replicate (length [Some (1::nat), Some 2, Some 3, Some 4, Some 5]) OutUnit, d)"
    "Len d = 2"
    "visited d = Some (drop (length [Some (1::nat), Some 2, Some 3, Some 4, Some 5] - nat 2)
                         [Some (1::nat), Some 2, Some 3, Some 4, Some 5])"
    "\<exists>d'. run (replicate (nat 2) OpPopFront) d
            = Some (map (\<lambda>x. OutPop x True)
                 (drop (length [Some (1::nat), Some 2, Some 3, Some 4, Some 5] - nat 2)
                         [Some (1::nat), Some 2, Some 3, Some 4, Some 5]), d') \<and> Len d' = 0"
    "\<forall>x. \<exists>d1. PushBack x d = Some d1 \<and> Len d1 = 2 \<and>
         visited d1 = Some (tl (drop (length [Some (1::nat), Some 2, Some 3, Some 4, Some 5] - nat 2)
                         [Some (1::nat), Some 2, Some 3, Some 4, Some 5]) @ [x])"
    "\<forall>x. \<exists>d1. PushFront x d = Some d1 \<and> Len d1 = 2 \<and>
         visited d1 = Some (x # butlast (drop (length [Some (1::nat), Some 2, Some 3, Some 4, Some 5] - nat 2)
                         [Some (1::nat), Some 2, Some 3, Some 4, Some 5]))"
    by blast
  then have "run [OpPushBack (Some (1::nat)), OpPushBack (Some 2), OpPushBack (Some 3),
             OpPushBack (Some 4), OpPushBack (Some 5)] (NewDequeWithMaxLen 2)
          = Some ([OutUnit, OutUnit, OutUnit, OutUnit, OutUnit], d) \<and>
        Len d = 2 \<and> visited d = Some [Some 4, Some 5] \<and>
        (\<exists>d'. run [OpPopFront, OpPopFront] d
                = Some ([OutPop (Some 4) True, OutPop (Some 5) True], d') \<and> Len d' = 0) \<and>
        (\<exists>d1. PushBack (Some 6) d = Some d1 \<and> Len d1 = 2 \<and> visited d1 = Some [Some 5, Some 6]) \<and>
        (\<exists>d1. PushFront (Some 6) d = Some d1 \<and> Len d1 = 2 \<and> visited d1 = Some [Some 6, Some 4])"
    by (simp add: n del: run.simps)
  then show ?thesis using h by blast
qed



lemma apply_op_not_len:
  "\<not> is_len_op a \<Longrightarrow> apply_op a d = Some (r, d') \<Longrightarrow> \<not> is_len_out r"
  by (cases a) auto

lemma run_without_Len:
  "run as d = Some (outs, d') \<Longrightarrow>
     run (filter (\<lambda>a. \<not> is_len_op a) as) d = Some (filter (\<lambda>r. \<not> is_len_out r) outs, d')"
proof (induction as arbitrary: d outs)
  case Nil
  then show ?case by simp
next
  case (Cons a as)
  from Cons.prems obtain r d1 rs where
    1: "apply_op a d = Some (r, d1)" "run as d1 = Some (rs, d')" "outs = r # rs"
    by (auto split: option.splits)
  from Cons.IH[OF 1(2)] have
    ih: "run (filter (\<lambda>a. \<not> is_len_op a) as) d1 = Some (filter (\<lambda>r. \<not> is_len_out r) rs, d')" .
  show ?case
  proof (cases "is_len_op a")
    case True
    then have "a = OpLen" by (cases a) auto
    with 1 ih show ?thesis by auto
  next
    case False
    from False 1(1) have "\<not> is_len_out r" by (rule apply_op_not_len)
    with False 1 ih show ?thesis by simp
  qed
qed

text \<open>
  Claim C8. On an unbounded deque, after any sequence of calls \<open>Len\<close> is the number of
  pushes minus the number of pops that returned a value. \<open>Len\<close> only reads the field
  \<open>len\<close>: the same sequence without its \<open>Len\<close> calls returns the same other results and
  ends in the same state.
\<close>

theorem C8_len_counts:
  fixes as :: "'a op list"
  assumes "m \<le> 0"
  shows "\<exists>outs d. run as (NewDequeWithMaxLen m) = Some (outs, d) \<and>
           Len d = int (length (filter is_push as)) - int (length (filter is_popped outs)) \<and>
           run (filter (\<lambda>a. \<not> is_len_op a) as) (NewDequeWithMaxLen m)
             = Some (filter (\<lambda>r. \<not> is_len_out r) outs, d)"
proof -
  from run_New[of as m] obtain d where
    d: "run as (NewDequeWithMaxLen m) = Some (fst (spec_run m as []), d)"
       "deque_inv d" "contents d = snd (spec_run m as [])"
    by blast
  have "Len d = int (length (filter is_push as))
                  - int (length (filter is_popped (fst (spec_run m as []))))"
    using spec_run_count[OF assms, of as "[]"] d(2,3) by (simp add: Len_contents)
  with d(1) run_without_Len[OF d(1)] show ?thesis by blast
qed

theorem C8_len_counts_witness:
  "(0::int) \<le> 0 \<and>
   (\<exists>d. run [OpPushFront (Some (1::nat)), OpLen, OpPushBack (Some 2), OpPushBack (Some 3),
             OpPopFront, OpPopFront, OpPopBack, OpPopBack, OpPushBack (Some 4), OpLen] NewDeque
          = Some ([OutUnit, OutLen 1, OutUnit, OutUnit, OutPop (Some 1) True, OutPop (Some 2) True,
                   OutPop (Some 3) True, OutPop None False, OutUnit, OutLen 1], d) \<and>
        Len d = 4 - 3 \<and>
        run [OpPushFront (Some (1::nat)), OpPushBack (Some 2), OpPushBack (Some 3),
             OpPopFront, OpPopFront, OpPopBack, OpPopBack, OpPushBack (Some 4)] NewDeque
          = Some ([OutUnit, OutUnit, OutUnit, OutPop (Some 1) True, OutPop (Some 2) True,
                   OutPop (Some 3) True, OutPop None False, OutUnit], d))"
proof -
  have h: "(0::int) \<le> 0" by simp
  have ev: "map_option fst (run [OpPushFront (Some (1::nat)), OpLen, OpPushBack (Some 2), OpPushBack (Some 3),
             OpPopFront, OpPopFront, OpPopBack, OpPopBack, OpPushBack (Some 4), OpLen] NewDeque)
          = Some [OutUnit, OutLen 1, OutUnit, OutUnit, OutPop (Some 1) True, OutPop (Some 2) True,
                   OutPop (Some 3) True, OutPop None False, OutUnit, OutLen 1]"
    by code_simp
  from C8_len_counts[OF h, of "[OpPushFront (Some (1::nat)), OpLen, OpPushBack (Some 2), OpPushBack (Some 3),
             OpPopFront, OpPopFront, OpPopBack, OpPopBack, OpPushBack (Some 4), OpLen]"]
  obtain outs d where
    1: "run [OpPushFront (Some (1::nat)), OpLen, OpPushBack (Some 2), OpPushBack (Some 3),
             OpPopFront, OpPopFront, OpPopBack, OpPopBack, OpPushBack (Some 4), OpLen] (NewDequeWithMaxLen 0)
          = Some (outs, d)"
       "Len d = int (length (filter is_push [OpPushFront (Some (1::nat)), OpLen, OpPushBack (Some 2), OpPushBack (Some 3),
             OpPopFront, OpPopFront, OpPopBack, OpPopBack, OpPushBack (Some 4), OpLen])) - int (length (filter is_popped outs))"
       "run (filter (\<lambda>a. \<not> is_len_op a) [OpPushFront (Some (1::nat)), OpLen, OpPushBack (Some 2), OpPushBack (Some 3),
             OpPopFront, OpPopFront, OpPopBack, OpPopBack, OpPushBack (Some 4), OpLen]) (NewDequeWithMaxLen 0)
             = Some (filter (\<lambda>r. \<not> is_len_out r) outs, d)"
    by blast
  from ev 1(1) have outs: "outs = [OutUnit, OutLen 1, OutUnit, OutUnit, OutPop (Some 1) True, OutPop (Some 2) True,
                   OutPop (Some 3) True, OutPop None False, OutUnit, OutLen 1]"
    by (simp add: NewDeque_def del: run.simps)
  show ?thesis
    using 1 unfolding outs by (simp add: NewDeque_def del: run.simps)
qed

text \<open>
  Claim C9. \<open>maxLen\<close> is set by the constructor and no operation changes it (for every
  \<open>K\<close>); \<open>NewDeque\<close> is \<open>NewDequeWithMaxLen 0\<close>; and a deque built with any
  \<open>m \<le> 0\<close> returns on every call sequence what \<open>NewDeque\<close> returns, holds the same
  items, and every push on it adds one item and drops none.
\<close>

theorem C9_unbounded:
  fixes as :: "'a op list"
  shows "(\<exists>outs d. run as (NewDequeWithMaxLen K) = Some (outs, d) \<and> maxLen d = K) \<and>
         (NewDeque :: 'a Deque) = NewDequeWithMaxLen 0 \<and>
         (m \<le> 0 \<longrightarrow>
            (\<exists>outs d d0 vs.
               run as (NewDequeWithMaxLen m) = Some (outs, d) \<and>
               run as NewDeque = Some (outs, d0) \<and> maxLen d = m \<and>
               visited d = Some vs \<and> visited d0 = Some vs \<and> Len d0 = Len d \<and>
               (\<forall>x. \<exists>d'. PushBack x d = Some d' \<and> Len d' = Len d + 1 \<and>
                      visited d' = Some (vs @ [x])) \<and>
               (\<forall>x. \<exists>d'. PushFront x d = Some d' \<and> Len d' = Len d + 1 \<and>
                      visited d' = Some (x # vs))))"
proof (intro conjI impI)
  show "\<exists>outs d. run as (NewDequeWithMaxLen K) = Some (outs, d) \<and> maxLen d = K"
    using run_New[of as K] by blast
  show "(NewDeque :: 'a Deque) = NewDequeWithMaxLen 0" by (simp add: NewDeque_def)
next
  assume m: "m \<le> 0"
  from run_New[of as m] obtain d where
    d: "run as (NewDequeWithMaxLen m) = Some (fst (spec_run m as []), d)"
       "deque_inv d" "maxLen d = m" "contents d = snd (spec_run m as [])"
    by blast
  from run_New[of as 0] obtain d0 where
    d0: "run as (NewDequeWithMaxLen 0) = Some (fst (spec_run 0 as []), d0)"
       "deque_inv d0" "contents d0 = snd (spec_run 0 as [])"
    by blast
  have eq: "spec_run m as [] = spec_run 0 as []" using m by (rule spec_run_unbounded_eq)
  have c0: "contents d0 = contents d" by (simp add: d(4) d0(3) eq)
  have pb: "\<exists>d'. PushBack x d = Some d' \<and> Len d' = Len d + 1 \<and>
                 visited d' = Some (contents d @ [x])" for x
  proof -
    from PushBack_step[OF d(2), of x] obtain d' where
      "PushBack x d = Some d'" "deque_inv d'" "contents d' = contents d @ [x]"
      using m by (auto simp: d(3))
    then show ?thesis using d(2) by (simp add: Len_contents visited_contents)
  qed
  have pf: "\<exists>d'. PushFront x d = Some d' \<and> Len d' = Len d + 1 \<and>
                 visited d' = Some (x # contents d)" for x
  proof -
    from PushFront_step[OF d(2), of x] obtain d' where
      "PushFront x d = Some d'" "deque_inv d'" "contents d' = x # contents d"
      using m by (auto simp: d(3))
    then show ?thesis using d(2) by (simp add: Len_contents visited_contents)
  qed
  have 1: "run as NewDeque = Some (fst (spec_run m as []), d0)"
    using d0(1) by (simp add: NewDeque_def eq)
  have 2: "visited d = Some (contents d)" "visited d0 = Some (contents d)"
    using d(2) d0(2) c0 by (simp_all add: visited_contents)
  have 3: "Len d0 = Len d" using d(2) d0(2) c0 by (simp add: Len_contents)
  show "\<exists>outs d d0 vs.
               run as (NewDequeWithMaxLen m) = Some (outs, d) \<and>
               run as NewDeque = Some (outs, d0) \<and> maxLen d = m \<and>
               visited d = Some vs \<and> visited d0 = Some vs \<and> Len d0 = Len d \<and>
               (\<forall>x. \<exists>d'. PushBack x d = Some d' \<and> Len d' = Len d + 1 \<and>
                      visited d' = Some (vs @ [x])) \<and>
               (\<forall>x. \<exists>d'. PushFront x d = Some d' \<and> Len d' = Len d + 1 \<and>
                      visited d' = Some (x # vs))"
    using d(1,3) 1 2 3 pb pf by blast
qed

theorem C9_unbounded_witness:
  "(- 3::int) \<le> 0 \<and>
   (\<exists>outs d d0 vs.
      run [OpPushBack (Some (1::nat)), OpPushFront (Some 2), OpLen, OpPopBack]
          (NewDequeWithMaxLen (- 3)) = Some (outs, d) \<and>
      run [OpPushBack (Some (1::nat)), OpPushFront (Some 2), OpLen, OpPopBack]
          NewDeque = Some (outs, d0) \<and> maxLen d = - 3 \<and>
      visited d = Some vs \<and> visited d0 = Some vs \<and> Len d0 = Len d \<and>
      (\<exists>d'. PushBack (Some 7) d = Some d' \<and> Len d' = Len d + 1 \<and>
             visited d' = Some (vs @ [Some 7])) \<and>
      (\<exists>d'. PushFront (Some 7) d = Some d' \<and> Len d' = Len d + 1 \<and>
             visited d' = Some (Some 7 # vs)))"
proof -
  have h: "(- 3::int) \<le> 0" by simp
  from C9_unbounded[of "[OpPushBack (Some (1::nat)), OpPushFront (Some 2), OpLen, OpPopBack]" "- 3" "- 3"]
  show ?thesis by (simp del: run.simps) blast
qed

text \<open>
  Claim C7. \<open>Each\<close> calls \<open>f\<close> once for every stored item, from front to back: in every
  state reached from a constructor, \<open>Each f\<close> folds \<open>f\<close> over the list \<open>vs\<close> of the items
  that \<open>Len\<close> counts and that successive \<open>PopFront\<close> calls would return, in that order.
  After \<open>PushBack\<close> of \<open>a\<close>, \<open>b\<close>, \<open>c\<close> on a new deque it calls \<open>f a\<close>, then \<open>f b\<close>, then
  \<open>f c\<close>; and after \<open>PushBack\<close> of any list \<open>xs\<close>, however many blocks it fills, it folds
  \<open>f\<close> over \<open>xs\<close>.
\<close>

theorem C7_each_in_order:
  fixes as :: "'a op list" and f :: "'a iface \<Rightarrow> 's \<Rightarrow> 's"
  shows "(\<exists>outs d vs. run as (NewDequeWithMaxLen m) = Some (outs, d) \<and>
            Each f d s = Some (fold f vs s) \<and> int (length vs) = Len d \<and>
            (\<exists>d'. run (replicate (length vs) OpPopFront) d
                    = Some (map (\<lambda>v. OutPop v True) vs, d'))) \<and>
         (\<exists>d. run [OpPushBack a, OpPushBack b, OpPushBack c] NewDeque
                 = Some ([OutUnit, OutUnit, OutUnit], d) \<and>
              Each f d s = Some (f c (f b (f a s)))) \<and>
         (k \<le> 0 \<longrightarrow>
            (\<exists>d. run (map OpPushBack xs) (NewDequeWithMaxLen k)
                    = Some (replicate (length xs) OutUnit, d) \<and>
                 Each f d s = Some (fold f xs s)))"
proof (intro conjI impI)
  from run_New[of as m] obtain d where
    d: "run as (NewDequeWithMaxLen m) = Some (fst (spec_run m as []), d)" "deque_inv d"
    by blast
  from run_refines[OF d(2), of "replicate (length (contents d)) OpPopFront"]
  obtain d' where "run (replicate (length (contents d)) OpPopFront) d
                     = Some (map (\<lambda>v. OutPop v True) (contents d), d')"
    using spec_run_pop_front[of "maxLen d" "contents d" "[]"] by auto
  then show "\<exists>outs d vs. run as (NewDequeWithMaxLen m) = Some (outs, d) \<and>
            Each f d s = Some (fold f vs s) \<and> int (length vs) = Len d \<and>
            (\<exists>d'. run (replicate (length vs) OpPopFront) d
                    = Some (map (\<lambda>v. OutPop v True) vs, d'))"
    using d Each_fold[OF d(2), of f s] Len_contents[OF d(2)] by auto
next
  have z: "(0::int) \<le> 0" by simp
  from run_New[of "map OpPushBack [a, b, c]" 0] obtain d where
    "run (map OpPushBack [a, b, c]) (NewDequeWithMaxLen 0) = Some ([OutUnit, OutUnit, OutUnit], d)"
    "deque_inv d" "contents d = [a, b, c]"
    by (auto simp: spec_run_push_back[OF z] simp del: run.simps)
  then show "\<exists>d. run [OpPushBack a, OpPushBack b, OpPushBack c] NewDeque
                 = Some ([OutUnit, OutUnit, OutUnit], d) \<and>
              Each f d s = Some (f c (f b (f a s)))"
    using Each_fold[of d f s] by (auto simp: NewDeque_def simp del: run.simps)
next
  assume k: "k \<le> 0"
  from run_New[of "map OpPushBack xs" k] obtain d where
    "run (map OpPushBack xs) (NewDequeWithMaxLen k) = Some (replicate (length xs) OutUnit, d)"
    "deque_inv d" "contents d = xs"
    by (auto simp: spec_run_push_back[OF k])
  then show "\<exists>d. run (map OpPushBack xs) (NewDequeWithMaxLen k)
                    = Some (replicate (length xs) OutUnit, d) \<and>
                 Each f d s = Some (fold f xs s)"
    using Each_fold[of d f s] by auto
qed

theorem C7_each_in_order_witness:
  "(0::int) \<le> 0 \<and>
   (\<exists>d. run [OpPushBack (Some (1::nat)), OpPushBack (Some 2), OpPushBack (Some 3)] NewDeque
          = Some ([OutUnit, OutUnit, OutUnit], d) \<and>
        Each (\<lambda>v acc. acc @ [v]) d [] = Some [Some 1, Some 2, Some 3]) \<and>
   (\<exists>d. run (map OpPushBack (map Some [0..<40])) NewDeque = Some (replicate 40 OutUnit, d) \<and>
        length (blocks d) = 2 \<and>
        Each (\<lambda>v acc. acc @ [v]) d [] = Some (map Some [0..<40]))"
proof -
  have ev: "map_option (\<lambda>r. length (blocks (snd r)))
              (run (map OpPushBack (map Some [0..<40])) NewDeque) = Some 2"
    by code_simp
  from C7_each_in_order[of "[]" 0 "\<lambda>v acc. acc @ [v]" "[]" "Some (1::nat)" "Some 2" "Some 3" 0
      "map Some [0..<40]"]
  have 1: "\<exists>d. run [OpPushBack (Some (1::nat)), OpPushBack (Some 2), OpPushBack (Some 3)] NewDeque
          = Some ([OutUnit, OutUnit, OutUnit], d) \<and>
        Each (\<lambda>v acc. acc @ [v]) d [] = Some [Some 1, Some 2, Some 3]"
    and 2: "\<exists>d. run (map OpPushBack (map Some [0..<40])) (NewDequeWithMaxLen 0)
                    = Some (replicate (length (map Some [0..<40])) OutUnit, d) \<and>
                 Each (\<lambda>v acc. acc @ [v]) d [] = Some (fold (\<lambda>v acc. acc @ [v]) (map Some [0..<40]) [])"
    by (simp_all del: run.simps upt_Suc)
  from 2 obtain d where
    d: "run (map OpPushBack (map Some [0..<40])) NewDeque = Some (replicate 40 OutUnit, d)"
       "Each (\<lambda>v acc. acc @ [v]) d [] = Some (map Some [0..<40])"
    by (auto simp: NewDeque_def fold_snoc simp del: run.simps upt_Suc)
  from ev d(1) have "length (blocks d) = 2" by simp
  with d 1 show ?thesis by blast
qed

lemma deque_inv_cursors:
  assumes "deque_inv d"
  shows "0 \<le> frontIdx d \<and> frontIdx d < blockLen \<and> 0 \<le> backIdx d \<and> backIdx d < blockLen"
  using assms by (simp add: deque_inv_def)

lemma deque_inv_empty:
  assumes "deque_inv d" "len d = 0"
  shows "length (blocks d) = 1 \<and> frontIdx d = backIdx d + 1 \<and> backIdx d < blockLen - 1"
proof -
  from assms(1) obtain f b n where
    f: "frontIdx d = int f" "f < 64" and b: "backIdx d = int b" "b < 64" and
    n: "len d = int n" and eq: "n + f = (length (blocks d) - 1) * 64 + b + 1" and
    nz: "blocks d \<noteq> []"
    by (rule deque_invE)
  from assms(2) n have n0: "n = 0" by simp
  from nz have k1: "1 \<le> length (blocks d)" by (cases "blocks d") auto
  from eq n0 f(2) have "(length (blocks d) - 1) * 64 < 64" by linarith
  then have "length (blocks d) - 1 = 0" by simp
  with k1 have k: "length (blocks d) = 1" by linarith
  from eq n0 k have "f = b + 1" by simp
  with k f b show ?thesis by (simp add: blockLen_def)
qed




text \<open>
  Claim C4 as stated fails: after \<open>PushBack 1\<close> and \<open>PopFront\<close> on a new deque the length
  is \<open>0\<close> and the cursors are \<open>33\<close> and \<open>32\<close>, not \<open>blockCenter + 1 = 32\<close> and
  \<open>blockCenter = 31\<close>. \<open>PopFront\<close> and \<open>PopBack\<close> call \<open>recenter\<close> only under the guard
  that the cursor has left the block.
\<close>

theorem C4_counterexample:
  "run [OpPushBack (Some (1::nat)), OpPopFront] NewDeque
     = Some ([OutUnit, OutPop (Some 1) True],
             \<lparr>maxLen = 0, blocks = [replicate 64 None], frontIdx = 33, backIdx = 32, len = 0\<rparr>) \<and>
   (33::int) \<noteq> blockCenter + 1 \<and> (32::int) \<noteq> blockCenter"
  by code_simp

lemma PopFront_last_item:
  assumes "deque_inv d" "len d = 1"
  shows "\<exists>r d'. PopFront d = Some (r, d') \<and> len d' = 0 \<and>
           (if frontIdx d = blockLen - 1
            then frontIdx d' = blockCenter + 1 \<and> backIdx d' = blockCenter
            else frontIdx d' = frontIdx d + 1 \<and> backIdx d' = backIdx d)"
proof -
  from assms(1) obtain f where
    f: "frontIdx d = int f" "f < 64" and
    nz: "blocks d \<noteq> []" and lb: "\<forall>blk \<in> set (blocks d). length blk = 64"
    by (rule deque_invE)
  from nz obtain blk rest where bs: "blocks d = blk # rest" by (cases "blocks d") auto
  from lb bs f(2) have lt: "f < length blk" by simp
  have l1: "1 \<le> len d" using assms(2) by simp
  show ?thesis
    using assms(2) f by (auto simp: PopFront_eval[OF bs f(1) lt l1] blockLen_def blockCenter_def)
qed

lemma PopBack_last_item:
  assumes "deque_inv d" "len d = 1"
  shows "\<exists>r d'. PopBack d = Some (r, d') \<and> len d' = 0 \<and>
           (if backIdx d = 0
            then frontIdx d' = blockCenter + 1 \<and> backIdx d' = blockCenter
            else frontIdx d' = frontIdx d \<and> backIdx d' = backIdx d - 1)"
proof -
  from assms(1) obtain b where
    b: "backIdx d = int b" "b < 64" and
    nz: "blocks d \<noteq> []" and lb: "\<forall>blk \<in> set (blocks d). length blk = 64"
    by (rule deque_invE)
  from lb nz b(2) have lt: "b < length (last (blocks d))" by simp
  have l1: "1 \<le> len d" using assms(2) by simp
  show ?thesis
    using assms(2) b by (auto simp: PopBack_eval[OF nz b(1) lt l1] blockLen_def blockCenter_def)
qed

text \<open>
  Claim C4, amended. In every state reached from a constructor in which \<open>len = 0\<close> there
  is exactly one block and the cursors are crossed inside it (\<open>frontIdx = backIdx + 1\<close>,
  \<open>0 \<le> backIdx < 63\<close>), so that the next push at either end is stored in that block, at
  the slot where the cursors cross, and every further call sequence returns what it
  returns on a new deque. The cursors are at \<open>blockCenter + 1\<close> and \<open>blockCenter\<close> in the
  new deque and after a pop that removes the last item from the slot at the edge of its
  block (\<open>PopFront\<close> at slot \<open>63\<close>, \<open>PopBack\<close> at slot \<open>0\<close>); after any other pop that
  removes the last item they are crossed next to the slot of that item.
\<close>

theorem C4_empty_state:
  fixes as :: "'a op list"
  shows "(\<exists>outs d. run as (NewDequeWithMaxLen m) = Some (outs, d) \<and>
            (len d = 0 \<longrightarrow>
               length (blocks d) = 1 \<and> frontIdx d = backIdx d + 1 \<and>
               0 \<le> backIdx d \<and> backIdx d < blockLen - 1 \<and>
               (\<forall>x. \<exists>d'. PushBack x d = Some d' \<and> length (blocks d') = 1 \<and>
                      backIdx d' = frontIdx d \<and> frontIdx d' = frontIdx d \<and> len d' = 1) \<and>
               (\<forall>x. \<exists>d'. PushFront x d = Some d' \<and> length (blocks d') = 1 \<and>
                      frontIdx d' = backIdx d \<and> backIdx d' = backIdx d \<and> len d' = 1) \<and>
               (\<forall>bs. map_option fst (run bs d) = map_option fst (run bs (NewDequeWithMaxLen m)))) \<and>
            (len d = 1 \<longrightarrow>
               (\<exists>r d'. PopFront d = Some (r, d') \<and> len d' = 0 \<and>
                  (if frontIdx d = blockLen - 1
                   then frontIdx d' = blockCenter + 1 \<and> backIdx d' = blockCenter
                   else frontIdx d' = frontIdx d + 1 \<and> backIdx d' = backIdx d)) \<and>
               (\<exists>r d'. PopBack d = Some (r, d') \<and> len d' = 0 \<and>
                  (if backIdx d = 0
                   then frontIdx d' = blockCenter + 1 \<and> backIdx d' = blockCenter
                   else frontIdx d' = frontIdx d \<and> backIdx d' = backIdx d - 1)))) \<and>
         frontIdx (NewDequeWithMaxLen m :: 'a Deque) = blockCenter + 1 \<and>
         backIdx (NewDequeWithMaxLen m :: 'a Deque) = blockCenter \<and>
         length (blocks (NewDequeWithMaxLen m :: 'a Deque)) = 1 \<and>
         len (NewDequeWithMaxLen m :: 'a Deque) = 0"
proof -
  from run_New[of as m] obtain d where
    d: "run as (NewDequeWithMaxLen m) = Some (fst (spec_run m as []), d)" "deque_inv d"
       "maxLen d = m"
    by blast
  have emp: "length (blocks d) = 1 \<and> frontIdx d = backIdx d + 1 \<and>
               0 \<le> backIdx d \<and> backIdx d < blockLen - 1 \<and>
               (\<forall>x. \<exists>d'. PushBack x d = Some d' \<and> length (blocks d') = 1 \<and>
                      backIdx d' = frontIdx d \<and> frontIdx d' = frontIdx d \<and> len d' = 1) \<and>
               (\<forall>x. \<exists>d'. PushFront x d = Some d' \<and> length (blocks d') = 1 \<and>
                      frontIdx d' = backIdx d \<and> backIdx d' = backIdx d \<and> len d' = 1) \<and>
               (\<forall>bs. map_option fst (run bs d) = map_option fst (run bs (NewDequeWithMaxLen m)))"
    if l0: "len d = 0"
  proof -
    from deque_inv_empty[OF d(2) l0] have
      e: "length (blocks d) = 1" "frontIdx d = backIdx d + 1" "backIdx d < blockLen - 1"
      by simp_all
    from deque_inv_cursors[OF d(2)] have b0: "0 \<le> backIdx d" by simp
    have noev: "(maxLen d > 0 \<and> len d + 1 > maxLen d) = False" using l0 by auto
    have b63: "backIdx d \<noteq> 63" using e(3) by (simp add: blockLen_def)
    have f0: "frontIdx d \<noteq> 0" using e(2) b0 by simp
    have evb: "PushBack x d = Some (back_stored x d)" for x
      by (simp only: PushBack_eval[OF d(2)] noev if_False)
    have evf: "PushFront x d = Some (front_stored x d)" for x
      by (simp only: PushFront_eval[OF d(2)] noev if_False)
    from e(1) have nz: "blocks d \<noteq> []" by auto
    then have lbl: "length (butlast (blocks d)) = 0" using e(1) by simp
    have pb: "\<exists>d'. PushBack x d = Some d' \<and> length (blocks d') = 1 \<and>
                      backIdx d' = frontIdx d \<and> frontIdx d' = frontIdx d \<and> len d' = 1" for x
      using e l0 lbl b63 by (simp add: evb back_stored_def)
    have pf: "\<exists>d'. PushFront x d = Some d' \<and> length (blocks d') = 1 \<and>
                      frontIdx d' = backIdx d \<and> backIdx d' = backIdx d \<and> len d' = 1" for x
      using e l0 nz f0 by (simp add: evf front_stored_def)
    have c0: "contents d = []" using length_contents[OF d(2)] l0 by simp
    have same: "map_option fst (run bs d) = map_option fst (run bs (NewDequeWithMaxLen m))" for bs
      using run_refines[OF d(2), of bs] run_New[of bs m] by (auto simp: d(3) c0)
    show ?thesis using e b0 pb pf same by blast
  qed
  have one: "(\<exists>r d'. PopFront d = Some (r, d') \<and> len d' = 0 \<and>
                  (if frontIdx d = blockLen - 1
                   then frontIdx d' = blockCenter + 1 \<and> backIdx d' = blockCenter
                   else frontIdx d' = frontIdx d + 1 \<and> backIdx d' = backIdx d)) \<and>
               (\<exists>r d'. PopBack d = Some (r, d') \<and> len d' = 0 \<and>
                  (if backIdx d = 0
                   then frontIdx d' = blockCenter + 1 \<and> backIdx d' = blockCenter
                   else frontIdx d' = frontIdx d \<and> backIdx d' = backIdx d - 1))"
    if l1: "len d = 1"
    using PopFront_last_item[OF d(2) l1] PopBack_last_item[OF d(2) l1] by blast
  have new: "frontIdx (NewDequeWithMaxLen m :: 'a Deque) = blockCenter + 1 \<and>
         backIdx (NewDequeWithMaxLen m :: 'a Deque) = blockCenter \<and>
         length (blocks (NewDequeWithMaxLen m :: 'a Deque)) = 1 \<and>
         len (NewDequeWithMaxLen m :: 'a Deque) = 0"
    by (simp add: NewDequeWithMaxLen_def recenter_def)
  show ?thesis using d(1) emp one new by blast
qed

theorem C4_empty_state_witness:
  "(\<exists>d. run [OpPushBack (Some (1::nat)), OpPopFront] (NewDequeWithMaxLen 0)
          = Some ([OutUnit, OutPop (Some 1) True], d) \<and>
        len d = 0 \<and> length (blocks d) = 1 \<and> frontIdx d = 33 \<and> backIdx d = 32 \<and>
        (\<exists>d'. PushBack (Some 2) d = Some d' \<and> length (blocks d') = 1 \<and>
               backIdx d' = 33 \<and> frontIdx d' = 33 \<and> len d' = 1) \<and>
        (\<exists>d'. PushFront (Some 2) d = Some d' \<and> length (blocks d') = 1 \<and>
               frontIdx d' = 32 \<and> backIdx d' = 32 \<and> len d' = 1) \<and>
        map_option fst (run [OpPopBack, OpPushFront (Some 5), OpLen] d)
          = map_option fst (run [OpPopBack, OpPushFront (Some 5), OpLen] (NewDequeWithMaxLen 0))) \<and>
   (\<exists>outs d. run (map OpPushBack (map Some [0..<32]) @ replicate 31 OpPopFront)
               (NewDequeWithMaxLen 0) = Some (outs, d) \<and>
        len d = 1 \<and> frontIdx d = 63 \<and> backIdx d = 63 \<and>
        (\<exists>r d'. PopFront d = Some (r, d') \<and> len d' = 0 \<and>
                frontIdx d' = blockCenter + 1 \<and> backIdx d' = blockCenter) \<and>
        (\<exists>r d'. PopBack d = Some (r, d') \<and> len d' = 0 \<and>
                frontIdx d' = 63 \<and> backIdx d' = 62))"
proof -
  have ev: "run [OpPushBack (Some (1::nat)), OpPopFront] (NewDequeWithMaxLen 0)
     = Some ([OutUnit, OutPop (Some 1) True],
             \<lparr>maxLen = 0, blocks = [replicate 64 None], frontIdx = 33, backIdx = 32, len = 0\<rparr>)"
    by code_simp
  have ev2: "map_option (\<lambda>r. (len (snd r), frontIdx (snd r), backIdx (snd r)))
               (run (map OpPushBack (map Some [0..<32]) @ replicate 31 OpPopFront)
                  (NewDequeWithMaxLen 0)) = Some (1, 63, 63)"
    by code_simp
  from C4_empty_state[of "[OpPushBack (Some (1::nat)), OpPopFront]" 0]
  have 1: "\<exists>d. run [OpPushBack (Some (1::nat)), OpPopFront] (NewDequeWithMaxLen 0)
          = Some ([OutUnit, OutPop (Some 1) True], d) \<and>
        len d = 0 \<and> length (blocks d) = 1 \<and> frontIdx d = 33 \<and> backIdx d = 32 \<and>
        (\<exists>d'. PushBack (Some 2) d = Some d' \<and> length (blocks d') = 1 \<and>
               backIdx d' = 33 \<and> frontIdx d' = 33 \<and> len d' = 1) \<and>
        (\<exists>d'. PushFront (Some 2) d = Some d' \<and> length (blocks d') = 1 \<and>
               frontIdx d' = 32 \<and> backIdx d' = 32 \<and> len d' = 1) \<and>
        map_option fst (run [OpPopBack, OpPushFront (Some 5), OpLen] d)
          = map_option fst (run [OpPopBack, OpPushFront (Some 5), OpLen] (NewDequeWithMaxLen 0))"
    unfolding ev by (simp del: run.simps)
  from C4_empty_state[of "map OpPushBack (map Some [0..<32]) @ replicate 31 OpPopFront" 0]
  obtain outs d where
    d: "run (map OpPushBack (map Some [0..<32]) @ replicate 31 OpPopFront)
               (NewDequeWithMaxLen 0) = Some (outs, d)"
       "len d = 1 \<longrightarrow>
               (\<exists>r d'. PopFront d = Some (r, d') \<and> len d' = 0 \<and>
                  (if frontIdx d = blockLen - 1
                   then frontIdx d' = blockCenter + 1 \<and> backIdx d' = blockCenter
                   else frontIdx d' = frontIdx d + 1 \<and> backIdx d' = backIdx d)) \<and>
               (\<exists>r d'. PopBack d = Some (r, d') \<and> len d' = 0 \<and>
                  (if backIdx d = 0
                   then frontIdx d' = blockCenter + 1 \<and> backIdx d' = blockCenter
                   else frontIdx d' = frontIdx d \<and> backIdx d' = backIdx d - 1))"
    by blast
  from ev2 d(1) have st: "len d = 1" "frontIdx d = 63" "backIdx d = 63" by simp_all
  from d(2) st have 2: "(\<exists>r d'. PopFront d = Some (r, d') \<and> len d' = 0 \<and>
                frontIdx d' = blockCenter + 1 \<and> backIdx d' = blockCenter) \<and>
        (\<exists>r d'. PopBack d = Some (r, d') \<and> len d' = 0 \<and>
                frontIdx d' = 63 \<and> backIdx d' = 62)"
    by (simp add: blockLen_def)
  from 1 d(1) st 2 show ?thesis by blast
qed

end
